theory Spec2Isabelle
  imports Main "HOL-Library.Sublist"
begin

section \<open>Text and the string methods the tools call\<close>

text \<open>
  A document is a \<^typ>\<open>string\<close>: one \<^typ>\<open>char\<close> for each code point of the Python
  \<^verbatim>\<open>str\<close>, for text whose code points lie below 256. The functions of this section are
  the library calls of the two scripts: \<^verbatim>\<open>str.isspace\<close> (also the class \<^verbatim>\<open>\s\<close> of
  \<^verbatim>\<open>re\<close>), \<^verbatim>\<open>str.strip\<close>, \<^verbatim>\<open>str.splitlines\<close>, \<^verbatim>\<open>str.join\<close> and \<^verbatim>\<open>str\<close> of a
  non-negative integer.
\<close>

definition is_space :: "char \<Rightarrow> bool" where
  "is_space c \<longleftrightarrow>
     c \<in> {CHR 0x09, CHR 0x0A, CHR 0x0B, CHR 0x0C, CHR 0x0D,
          CHR 0x1C, CHR 0x1D, CHR 0x1E, CHR 0x1F, CHR 0x20, CHR 0x85, CHR 0xA0}"

definition is_linebreak :: "char \<Rightarrow> bool" where
  "is_linebreak c \<longleftrightarrow>
     c \<in> {CHR 0x0A, CHR 0x0B, CHR 0x0C, CHR 0x0D, CHR 0x1C, CHR 0x1D, CHR 0x1E, CHR 0x85}"

definition strip :: "string \<Rightarrow> string" where
  "strip s = rev (dropWhile is_space (rev (dropWhile is_space s)))"

text \<open>
  \<^verbatim>\<open>splitlines\<close>: a line ends at a line break, \<^verbatim>\<open>\r\n\<close> counts as one break, the breaks
  are not kept, and no empty line follows the last break.
\<close>

fun splitlines_from :: "string \<Rightarrow> string \<Rightarrow> string list" where
  "splitlines_from acc [] = (if acc = [] then [] else [rev acc])"
| "splitlines_from acc [c] =
     (if is_linebreak c then [rev acc] else [rev (c # acc)])"
| "splitlines_from acc (c # d # cs) =
     (if c = CHR 0x0D \<and> d = CHR 0x0A then rev acc # splitlines_from [] cs
      else if is_linebreak c then rev acc # splitlines_from [] (d # cs)
      else splitlines_from (c # acc) (d # cs))"

definition splitlines :: "string \<Rightarrow> string list" where
  "splitlines s = splitlines_from [] s"

fun join :: "string \<Rightarrow> string list \<Rightarrow> string" where
  "join sep [] = []"
| "join sep [x] = x"
| "join sep (x # y # ys) = x @ sep @ join sep (y # ys)"

definition digit :: "nat \<Rightarrow> char" where
  "digit d = char_of (48 + d)"

function str_nat :: "nat \<Rightarrow> string" where
  "str_nat n = (if n < 10 then [digit n] else str_nat (n div 10) @ [digit (n mod 10)])"
  by pat_completeness auto
termination
  by (relation "measure id") auto

declare str_nat.simps [simp del]

section \<open>The regular expressions of module re\<close>

text \<open>
  The scripts work through \<^verbatim>\<open>re.search\<close>, \<^verbatim>\<open>re.sub\<close> and \<^verbatim>\<open>re.findall\<close>. A pattern is
  a term of \<open>re\<close>, written node by node as the source writes it. \<open>matches r (text, g)\<close>
  lists every way \<open>r\<close> can match at the head of \<open>text\<close>, in the order in which the
  backtracking matcher of \<^verbatim>\<open>re\<close> tries them: each entry is the text left after the match
  and the content of group 1 (\<open>None\<close> as long as the group has not matched). The match
  that \<^verbatim>\<open>re\<close> reports is the first entry.

  \<open>Star\<close> is the greedy \<^verbatim>\<open>*\<close>, \<open>LazyStar\<close> is \<^verbatim>\<open>*?\<close>, \<open>Opt\<close> is the greedy \<^verbatim>\<open>?\<close>, \<open>Dot\<close> is
  \<^verbatim>\<open>.\<close> without DOTALL, \<open>Eol\<close> is \<^verbatim>\<open>$\<close> under MULTILINE, \<open>Group\<close> is the one capturing
  group a pattern of these scripts has. A leading \<^verbatim>\<open>^\<close> under MULTILINE is not a node: it
  restricts where a search may start, see \<open>re_search_from\<close>.

  The two length filters never remove an entry (\<open>matches\<close> only ever returns suffixes of
  the text, lemma \<open>matches_suffix\<close>) except that a \<^verbatim>\<open>*\<close> stops iterating a body that matched
  the empty string, as \<^verbatim>\<open>re\<close> does.
\<close>

datatype item = Chr char | Space

datatype re =
    One item
  | NoneOf "item list"
  | Dot
  | Eol
  | Eps
  | Seq re re
  | Star re
  | LazyStar re
  | Opt re
  | Group re

type_synonym mstate = "string \<times> string option"

fun item_ok :: "item \<Rightarrow> char \<Rightarrow> bool" where
  "item_ok (Chr d) c = (c = d)"
| "item_ok Space c = is_space c"

fun step1 :: "(char \<Rightarrow> bool) \<Rightarrow> mstate \<Rightarrow> mstate list" where
  "step1 ok ([], g) = []"
| "step1 ok (c # cs, g) = (if ok c then [(cs, g)] else [])"

function (sequential) matches :: "re \<Rightarrow> mstate \<Rightarrow> mstate list" where
  "matches (One it) s = step1 (item_ok it) s"
| "matches (NoneOf its) s = step1 (\<lambda>c. \<not> list_ex (\<lambda>it. item_ok it c) its) s"
| "matches Dot s = step1 (\<lambda>c. c \<noteq> CHR 0x0A) s"
| "matches Eol s = (case fst s of [] \<Rightarrow> [s] | c # cs \<Rightarrow> if c = CHR 0x0A then [s] else [])"
| "matches Eps s = [s]"
| "matches (Seq r1 r2) s =
     concat (map (matches r2)
       (filter (\<lambda>s'. length (fst s') \<le> length (fst s)) (matches r1 s)))"
| "matches (Star r) s =
     concat (map (matches (Star r))
       (filter (\<lambda>s'. length (fst s') < length (fst s)) (matches r s))) @ [s]"
| "matches (LazyStar r) s =
     s # concat (map (matches (LazyStar r))
       (filter (\<lambda>s'. length (fst s') < length (fst s)) (matches r s)))"
| "matches (Opt r) s = matches r s @ [s]"
| "matches (Group r) s =
     map (\<lambda>s'. (fst s', Some (take (length (fst s) - length (fst s')) (fst s))))
       (matches r s)"
  by pat_completeness auto
termination
  by (relation "measures [\<lambda>(r, s). length (fst s), \<lambda>(r, s). size r]") auto

declare matches.simps(6,7,8) [simp del]

text \<open>\<^verbatim>\<open>r+\<close>, \<^verbatim>\<open>r+?\<close> and a literal string.\<close>

definition Plus :: "re \<Rightarrow> re" where
  "Plus r = Seq r (Star r)"

definition LazyPlus :: "re \<Rightarrow> re" where
  "LazyPlus r = Seq r (LazyStar r)"

fun Str :: "string \<Rightarrow> re" where
  "Str [] = Eps"
| "Str (c # cs) = Seq (One (Chr c)) (Str cs)"

declare Str.simps [simp del]

text \<open>
  A match as the scripts use it: group 0 (the matched text) and group 1. \<open>group1\<close> is
  \<^verbatim>\<open>m.group(1)\<close>; in every pattern below the group is mandatory, so a match always has it.
\<close>

type_synonym groups = "string \<times> string option"

definition group0 :: "groups \<Rightarrow> string" where
  "group0 m = fst m"

definition group1 :: "groups \<Rightarrow> string" where
  "group1 m = (case snd m of Some g \<Rightarrow> g | None \<Rightarrow> [])"

text \<open>
  One attempt at one position. With \<open>adv\<close> (\<^verbatim>\<open>must_advance\<close> of \<^verbatim>\<open>re\<close>, set after an empty
  match) an empty match is rejected and the matcher backtracks to the next alternative.
\<close>

definition match_here :: "re \<Rightarrow> bool \<Rightarrow> string \<Rightarrow> mstate option" where
  "match_here r adv text =
     (case filter (\<lambda>s'. length (fst s') < length text \<or> (\<not> adv \<and> length (fst s') = length text))
             (matches r (text, None)) of
        [] \<Rightarrow> None
      | s' # _ \<Rightarrow> Some s')"

definition consumed :: "string \<Rightarrow> mstate \<Rightarrow> groups" where
  "consumed text s' = (take (length text - length (fst s')) text, snd s')"

text \<open>
  \<^verbatim>\<open>re.search\<close>: the leftmost position where the pattern matches, as \<open>(start, groups)\<close>.
  \<open>anchored\<close> says that the pattern begins with \<^verbatim>\<open>^\<close> under MULTILINE, so that a match
  may start only at the start of the text or right after a newline; \<open>bol\<close> says whether
  the current position is such a place.
\<close>

fun re_search_from :: "bool \<Rightarrow> re \<Rightarrow> bool \<Rightarrow> nat \<Rightarrow> string \<Rightarrow> (nat \<times> groups) option" where
  "re_search_from anchored r bol i [] =
     (if anchored \<and> \<not> bol then None
      else case match_here r False [] of
             Some s' \<Rightarrow> Some (i, consumed [] s')
           | None \<Rightarrow> None)"
| "re_search_from anchored r bol i (c # cs) =
     (case (if anchored \<and> \<not> bol then None else match_here r False (c # cs)) of
        Some s' \<Rightarrow> Some (i, consumed (c # cs) s')
      | None \<Rightarrow> re_search_from anchored r (c = CHR 0x0A) (Suc i) cs)"

definition re_search :: "re \<Rightarrow> string \<Rightarrow> (nat \<times> groups) option" where
  "re_search r text = re_search_from False r True 0 text"

definition re_search_bol :: "re \<Rightarrow> string \<Rightarrow> (nat \<times> groups) option" where
  "re_search_bol r text = re_search_from True r True 0 text"

text \<open>
  \<^verbatim>\<open>re.sub(pattern, repl, text, count)\<close>: left to right, each match is replaced by what
  \<open>f\<close> makes of its groups, text between matches is copied; \<open>count = 0\<close> means no limit,
  \<open>n\<close> counts the replacements made.
\<close>

function sub_loop :: "re \<Rightarrow> (groups \<Rightarrow> string) \<Rightarrow> nat \<Rightarrow> nat \<Rightarrow> bool \<Rightarrow> string \<Rightarrow> string" where
  "sub_loop r f count n adv text =
     (if count \<noteq> 0 \<and> count \<le> n then text
      else case match_here r adv text of
             Some s' \<Rightarrow>
               f (consumed text s') @
               (if length (fst s') < length text then sub_loop r f count (Suc n) False (fst s')
                else sub_loop r f count (Suc n) True text)
           | None \<Rightarrow>
               (case text of
                  [] \<Rightarrow> []
                | c # cs \<Rightarrow> c # sub_loop r f count n False cs))"
  by pat_completeness auto
termination
proof (relation "measures [\<lambda>(r, f, count, n, adv, text). length text,
                           \<lambda>(r, f, count, n, adv, text). if adv then 0 else 1]")
  fix r :: re and adv :: bool and tx :: string and s' :: mstate
  assume h: "match_here r adv tx = Some s'" "\<not> length (fst s') < length tx"
  let ?P = "\<lambda>s'. length (fst s') < length tx \<or> (\<not> adv \<and> length (fst s') = length tx)"
  from h obtain ss where "filter ?P (matches r (tx, None)) = s' # ss"
    by (auto simp: match_here_def split: list.splits)
  then have "s' \<in> set (filter ?P (matches r (tx, None)))"
    by simp
  with h have "\<not> adv"
    by auto
  then show "\<And>f count n. ((r, f, count, Suc n, True, tx), (r, f, count, n, adv, tx)) \<in> measures [\<lambda>(r, f, count, n, adv, text). length text,
                           \<lambda>(r, f, count, n, adv, text). if adv then 0 else 1]"
    by simp
qed auto

declare sub_loop.simps [simp del]

definition re_sub :: "re \<Rightarrow> (groups \<Rightarrow> string) \<Rightarrow> string \<Rightarrow> nat \<Rightarrow> string" where
  "re_sub r f text count = sub_loop r f count 0 False text"

text \<open>\<^verbatim>\<open>re.findall\<close> for a pattern with one group: group 1 of every match, left to right.\<close>

function findall_loop :: "re \<Rightarrow> bool \<Rightarrow> string \<Rightarrow> string list" where
  "findall_loop r adv text =
     (case match_here r adv text of
        Some s' \<Rightarrow>
          group1 (consumed text s') #
          (if length (fst s') < length text then findall_loop r False (fst s')
           else findall_loop r True text)
      | None \<Rightarrow>
          (case text of
             [] \<Rightarrow> []
           | c # cs \<Rightarrow> findall_loop r False cs))"
  by pat_completeness auto
termination
proof (relation "measures [\<lambda>(r, adv, text). length text,
                           \<lambda>(r, adv, text). if adv then 0 else 1]")
  fix r :: re and adv :: bool and tx :: string and s' :: mstate
  assume h: "match_here r adv tx = Some s'" "\<not> length (fst s') < length tx"
  let ?P = "\<lambda>s'. length (fst s') < length tx \<or> (\<not> adv \<and> length (fst s') = length tx)"
  from h obtain ss where "filter ?P (matches r (tx, None)) = s' # ss"
    by (auto simp: match_here_def split: list.splits)
  then have "s' \<in> set (filter ?P (matches r (tx, None)))"
    by simp
  with h have "\<not> adv"
    by auto
  then show "\<And>u :: unit. ((r, True, tx), (r, adv, tx)) \<in> measures [\<lambda>(r, adv, text). length text,
                           \<lambda>(r, adv, text). if adv then 0 else 1]"
    by simp
qed auto

declare findall_loop.simps [simp del]

definition re_findall :: "re \<Rightarrow> string \<Rightarrow> string list" where
  "re_findall r text = findall_loop r False text"

section \<open>number_citations.py\<close>

abbreviation bs :: char where
  "bs \<equiv> CHR 0x5C"

text \<open>
  \<^verbatim>\<open>^== References\s*$\<close> and \<^verbatim>\<open>^==\s+[^=\s].*$\<close>, both compiled with MULTILINE and both
  searched with \<open>re_search_bol\<close>, which is their leading \<^verbatim>\<open>^\<close>.
\<close>

definition heading_re :: re where
  "heading_re = Seq (Str ''== References'') (Seq (Star (One Space)) Eol)"

definition next_heading_re :: re where
  "next_heading_re =
     Seq (Str ''=='') (Seq (Plus (One Space))
       (Seq (NoneOf [Chr CHR ''='', Space]) (Seq (Star Dot) Eol)))"

definition split_sections :: "string \<Rightarrow> string \<times> string \<times> string" where
  "split_sections text =
     (case re_search_bol heading_re text of
        None \<Rightarrow> (text, [], [])
      | Some m \<Rightarrow>
          let start = fst m;
              refs_end =
                (case re_search_bol next_heading_re (drop (start + 1) text) of
                   Some m_next \<Rightarrow> start + 1 + fst m_next
                 | None \<Rightarrow> length text)
          in (take start text, drop start (take refs_end text), drop refs_end text))"

text \<open>\<^verbatim>\<open>\[\[([^\]]+)\]\]\<close>\<close>

definition anchor_re :: re where
  "anchor_re = Seq (Str ''[['') (Seq (Group (Plus (NoneOf [Chr CHR '']'']))) (Str '']]''))"

text \<open>
  The body of the loop of \<^verbatim>\<open>parse_reference_keys\<close>, on the pair \<open>(keys, key_to_num)\<close>,
  and the loop over the lines.
\<close>

definition record_key ::
  "string \<Rightarrow> string list \<times> (string \<rightharpoonup> nat) \<Rightarrow> string list \<times> (string \<rightharpoonup> nat)" where
  "record_key line acc =
     (case re_search anchor_re line of
        None \<Rightarrow> acc
      | Some m \<Rightarrow>
          let key = strip (group1 (snd m)) in
          (case snd acc key of
             None \<Rightarrow> (fst acc @ [key], (snd acc)(key \<mapsto> length (fst acc @ [key])))
           | Some n \<Rightarrow> acc))"

definition parse_reference_keys :: "string \<Rightarrow> string list \<times> (string \<rightharpoonup> nat)" where
  "parse_reference_keys refs = fold record_key (splitlines refs) ([], Map.empty)"

text \<open>
  The verbose pattern of \<^verbatim>\<open>replace_citations\<close>,
  \<^verbatim>\<open>(<<[^>]+>>(?:\s*,\s*<<[^>]+>>)*)\<close>, and the pattern \<^verbatim>\<open><<\s*([^>]+?)\s*>>\<close> of \<^verbatim>\<open>repl\<close>.
\<close>

definition marker_re :: re where
  "marker_re = Seq (Str ''<<'') (Seq (Plus (NoneOf [Chr CHR ''>''])) (Str ''>>''))"

definition more_re :: re where
  "more_re = Seq (Star (One Space)) (Seq (One (Chr CHR '','')) (Seq (Star (One Space)) marker_re))"

definition citation_re :: re where
  "citation_re = Group (Seq marker_re (Star more_re))"

definition key_re :: re where
  "key_re =
     Seq (Str ''<<'') (Seq (Star (One Space))
       (Seq (Group (LazyPlus (NoneOf [Chr CHR ''>'']))) (Seq (Star (One Space)) (Str ''>>''))))"

text \<open>
  The loop of \<^verbatim>\<open>repl\<close> over the keys: \<open>None\<close> is its early \<^verbatim>\<open>return group\<close> at the first
  unknown key, \<open>Some nums\<close> the list it has built when it runs to the end.
\<close>

fun collect_nums :: "(string \<rightharpoonup> nat) \<Rightarrow> string list \<Rightarrow> string list \<Rightarrow> string list option" where
  "collect_nums key_to_num [] nums = Some nums"
| "collect_nums key_to_num (k # ks) nums =
     (case key_to_num k of
        None \<Rightarrow> None
      | Some n \<Rightarrow> collect_nums key_to_num ks (nums @ [str_nat n]))"

definition repl :: "(string \<rightharpoonup> nat) \<Rightarrow> groups \<Rightarrow> string" where
  "repl key_to_num m =
     (let group = group1 m;
          keys = re_findall key_re group
      in case collect_nums key_to_num keys [] of
           None \<Rightarrow> group
         | Some nums \<Rightarrow> ''['' @ join '', '' nums @ '']'')"

definition replace_citations :: "string \<Rightarrow> (string \<rightharpoonup> nat) \<Rightarrow> string" where
  "replace_citations body key_to_num = re_sub citation_re (repl key_to_num) body 0"

text \<open>
  \<^verbatim>\<open>renumber_references\<close>. The dict comprehension over \<^verbatim>\<open>enumerate(ordered_keys)\<close> stores
  the entries left to right, a later one replacing an earlier one. The pattern of its
  \<^verbatim>\<open>re.sub\<close> is \<^verbatim>\<open>\[\[[^\]]+\]\]\<close>, the anchor pattern without the group, with
  \<^verbatim>\<open>count=1\<close>; its replacement is the literal text \<^verbatim>\<open>[n]\<close>.
\<close>

definition anchor_plain_re :: re where
  "anchor_plain_re = Seq (Str ''[['') (Seq (Plus (NoneOf [Chr CHR '']''])) (Str '']]''))"

definition number_keys :: "string list \<Rightarrow> (string \<rightharpoonup> nat)" where
  "number_keys ordered_keys =
     fold (\<lambda>(i, k) m. m(k \<mapsto> i + 1)) (enumerate 0 ordered_keys) Map.empty"

definition renumber_line :: "(string \<rightharpoonup> nat) \<Rightarrow> string \<Rightarrow> string" where
  "renumber_line key_to_num line =
     (case re_search anchor_re line of
        None \<Rightarrow> line
      | Some m \<Rightarrow>
          let key = strip (group1 (snd m)) in
          (case key_to_num key of
             None \<Rightarrow> line
           | Some n \<Rightarrow> re_sub anchor_plain_re (\<lambda>_. ''['' @ str_nat n @ '']'') line 1))"

definition renumber_references :: "string \<Rightarrow> string list \<Rightarrow> string" where
  "renumber_references refs ordered_keys =
     (let key_to_num = number_keys ordered_keys
      in join ''\<newline>'' (map (renumber_line key_to_num) (splitlines refs)))"

text \<open>
  \<^verbatim>\<open>main\<close> from the call of \<^verbatim>\<open>split_sections\<close> on: the text it writes to standard output,
  as a function of the text it has read.
\<close>

definition numbered_text :: "string \<Rightarrow> string" where
  "numbered_text text =
     (case split_sections text of
        (before_refs, refs, after_refs) \<Rightarrow>
          if refs = [] then text
          else (case parse_reference_keys refs of
                  (ordered_keys, key_to_num) \<Rightarrow>
                    replace_citations before_refs key_to_num
                    @ renumber_references refs ordered_keys
                    @ after_refs))"

section \<open>fix_cites.py\<close>

text \<open>
  \<^verbatim>\<open>\\textbackslash\s+cite\\?\{([^}]+)\\?\}\<close>, \<^verbatim>\<open>\\textbackslash\\cite\\?\{([^}]+)\\?\}\<close>
  and the cleanup pattern \<^verbatim>\<open>\\cite\{([^}]*)\\\}\<close>; the replacement template of all
  three is \<^verbatim>\<open>\\cite{\1}\<close>.
\<close>

definition cite_arg_re :: re where
  "cite_arg_re =
     Seq (Opt (One (Chr bs))) (Seq (One (Chr CHR ''{''))
       (Seq (Group (Plus (NoneOf [Chr CHR ''}'']))) (Seq (Opt (One (Chr bs))) (One (Chr CHR ''}'')))))"

definition escaped_space_re :: re where
  "escaped_space_re =
     Seq (Str (bs # ''textbackslash'')) (Seq (Plus (One Space)) (Seq (Str ''cite'') cite_arg_re))"

definition escaped_bs_re :: re where
  "escaped_bs_re = Seq (Str (bs # ''textbackslash'' @ bs # ''cite'')) cite_arg_re"

definition cleanup_re :: re where
  "cleanup_re =
     Seq (Str (bs # ''cite{'')) (Seq (Group (Star (NoneOf [Chr CHR ''}'']))) (Str (bs # ''}'')))"

definition cite_template :: "groups \<Rightarrow> string" where
  "cite_template m = bs # ''cite{'' @ group1 m @ ''}''"

text \<open>
  \<^verbatim>\<open>main\<close> between \<^verbatim>\<open>read_text\<close> and \<^verbatim>\<open>write_text\<close>: the loop over the two patterns, then
  the cleanup.
\<close>

definition fixed_text :: "string \<Rightarrow> string" where
  "fixed_text text =
     (let text1 = fold (\<lambda>pat t. re_sub pat cite_template t 0) [escaped_space_re, escaped_bs_re] text
      in re_sub cleanup_re cite_template text1 0)"

section \<open>The two entry points\<close>

text \<open>
  The world a script runs in: the files it can read (path to stored text), standard
  input, what it has written to the two output streams, and the log of its file and
  standard-input operations. A run ends by returning, by \<^verbatim>\<open>sys.exit(n)\<close> or by an
  exception nothing catches.

  Both scripts open their file in text mode with the default \<^verbatim>\<open>newline=None\<close>
  (\<^verbatim>\<open>open(path, "r", encoding="utf-8")\<close> and \<^verbatim>\<open>Path.read_text\<close>), so what they read is the
  stored text with every \<^verbatim>\<open>\r\n\<close> and every other \<^verbatim>\<open>\r\<close> turned into \<^verbatim>\<open>\n\<close>:
  \<open>universal_newlines\<close>. The streams are those of a POSIX run: \<^verbatim>\<open>sys.stdin\<close> hands the text
  over as it is, and \<^verbatim>\<open>sys.stdout.write\<close> and \<^verbatim>\<open>Path.write_text\<close> write \<^verbatim>\<open>\n\<close> as \<^verbatim>\<open>\n\<close>.
\<close>

datatype io_op = Read_stdin | Read_file string | Write_file string

datatype exn = IndexError | OSError

datatype outcome = Returned | SysExit nat | Raised exn

record world =
  files :: "string \<rightharpoonup> string"
  stdin :: string
  stdout :: string
  stderr :: string
  io_log :: "io_op list"

definition print_stderr :: "string \<Rightarrow> world \<Rightarrow> world" where
  "print_stderr msg w = w\<lparr>stderr := stderr w @ msg @ ''\<newline>''\<rparr>"

fun universal_newlines :: "string \<Rightarrow> string" where
  "universal_newlines [] = []"
| "universal_newlines [c] = (if c = CHR 0x0D then [CHR 0x0A] else [c])"
| "universal_newlines (c # d # cs) =
     (if c = CHR 0x0D \<and> d = CHR 0x0A then CHR 0x0A # universal_newlines cs
      else if c = CHR 0x0D then CHR 0x0A # universal_newlines (d # cs)
      else c # universal_newlines (d # cs))"

definition read_file :: "string \<Rightarrow> world \<Rightarrow> (exn + string) \<times> world" where
  "read_file path w =
     (case files w path of
        None \<Rightarrow> (Inl OSError, w\<lparr>io_log := io_log w @ [Read_file path]\<rparr>)
      | Some stored \<Rightarrow>
          (Inr (universal_newlines stored), w\<lparr>io_log := io_log w @ [Read_file path]\<rparr>))"

definition read_stdin :: "world \<Rightarrow> (exn + string) \<times> world" where
  "read_stdin w = (Inr (stdin w), w\<lparr>stdin := [], io_log := io_log w @ [Read_stdin]\<rparr>)"

definition write_file :: "string \<Rightarrow> string \<Rightarrow> world \<Rightarrow> world" where
  "write_file path text w =
     w\<lparr>files := (files w)(path \<mapsto> text), io_log := io_log w @ [Write_file path]\<rparr>"

text \<open>
  The input of \<^verbatim>\<open>number_citations.py\<close>: standard input when there is no argument or the
  argument is \<^verbatim>\<open>-\<close>, the named file otherwise. With an empty \<^verbatim>\<open>sys.argv\<close> the test
  \<^verbatim>\<open>sys.argv[1] == "-"\<close> raises.
\<close>

definition read_input :: "string list \<Rightarrow> world \<Rightarrow> (exn + string) \<times> world" where
  "read_input argv w =
     (if length argv = 1 then read_stdin w
      else (case argv of
              prog # arg # _ \<Rightarrow> if arg = ''-'' then read_stdin w else read_file arg w
            | _ \<Rightarrow> (Inl IndexError, w)))"

definition number_citations_main :: "string list \<Rightarrow> world \<Rightarrow> outcome \<times> world" where
  "number_citations_main argv w =
     (if length argv > 2
      then (SysExit 1, print_stderr ''Usage: number_citations.py [LLM-to-IAS.adoc]'' w)
      else (case read_input argv w of
              (Inl e, w') \<Rightarrow> (Raised e, w')
            | (Inr text, w') \<Rightarrow> (Returned, w'\<lparr>stdout := stdout w' @ numbered_text text\<rparr>)))"

definition fix_cites_main :: "string list \<Rightarrow> world \<Rightarrow> outcome \<times> world" where
  "fix_cites_main argv w =
     (if length argv \<noteq> 2
      then (SysExit 1, print_stderr ''Usage: fix_cites.py path/to/file.tex'' w)
      else
        let path = argv ! 1 in
        (case read_file path w of
           (Inl e, w') \<Rightarrow> (Raised e, w')
         | (Inr text, w') \<Rightarrow> (Returned, write_file path (fixed_text text) w')))"

section \<open>Notions used in the statements and proofs\<close>

text \<open>The first entry of a list of matches, if there is one.\<close>

definition first_of :: "'a list \<Rightarrow> 'a option" where
  "first_of xs = (case xs of [] \<Rightarrow> None | x # _ \<Rightarrow> Some x)"

text \<open>
  The texts a greedy \<^verbatim>\<open>*\<close> over a character class leaves, in the order the matcher
  tries them: the longest run of the class first, then one character less each time.
\<close>

fun backoff :: "(char \<Rightarrow> bool) \<Rightarrow> string \<Rightarrow> string list" where
  "backoff ok [] = [[]]"
| "backoff ok (x # xs) = (if ok x then backoff ok xs @ [x # xs] else [x # xs])"

text \<open>
  The lines of a document as the flag MULTILINE sees them, which is \<^verbatim>\<open>text.split("\n")\<close>:
  only \<^verbatim>\<open>\n\<close> ends a line. A heading line is \<^verbatim>\<open>== References\<close> followed by nothing but
  whitespace.
\<close>

fun split_nl :: "string \<Rightarrow> string \<Rightarrow> string list" where
  "split_nl acc [] = [rev acc]"
| "split_nl acc (c # cs) =
     (if c = CHR 0x0A then rev acc # split_nl [] cs else split_nl (c # acc) cs)"

definition text_lines :: "string \<Rightarrow> string list" where
  "text_lines t = split_nl [] t"

definition is_heading_line :: "string \<Rightarrow> bool" where
  "is_heading_line l \<longleftrightarrow>
     prefix ''== References'' l \<and> list_all is_space (drop (length ''== References'') l)"

text \<open>
  The key a line of the references block defines, as \<^verbatim>\<open>parse_reference_keys\<close> and
  \<^verbatim>\<open>renumber_references\<close> both compute it: the stripped group of the first anchor.
\<close>

definition line_key :: "string \<Rightarrow> string option" where
  "line_key line =
     (case re_search anchor_re line of
        None \<Rightarrow> None
      | Some m \<Rightarrow> Some (strip (group1 (snd m))))"





text \<open>
  In the words of the specification: the first occurrence of each distinct identifier,
  in order; a later occurrence of one already seen is ignored.
\<close>

fun first_occurrences :: "'a list \<Rightarrow> 'a list" where
  "first_occurrences [] = []"
| "first_occurrences (x # xs) = x # first_occurrences (filter (\<lambda>y. y \<noteq> x) xs)"

text \<open>The invariant of the loop of \<^verbatim>\<open>parse_reference_keys\<close>.\<close>

definition numbered :: "string list \<times> (string \<rightharpoonup> nat) \<Rightarrow> bool" where
  "numbered acc \<longleftrightarrow>
     distinct (fst acc) \<and> dom (snd acc) = set (fst acc)
     \<and> (\<forall>i < length (fst acc). snd acc (fst acc ! i) = Some (Suc i))"

text \<open>
  The shape of a citation run in the body, for the statements about \<^verbatim>\<open>replace_citations\<close>:
  a marker \<^verbatim>\<open><<k>>\<close>, followed by any number of further markers, each after optional
  whitespace, a comma and optional whitespace. What stands between \<^verbatim>\<open><<\<close> and \<^verbatim>\<open>>>\<close>
  holds no \<^verbatim>\<open>>\<close> and is not only whitespace; the identifier that the marker names is this
  text without the whitespace around it.
\<close>

definition marker :: "string \<Rightarrow> string" where
  "marker k = ''<<'' @ k @ ''>>''"

definition is_ident :: "string \<Rightarrow> bool" where
  "is_ident r \<longleftrightarrow> CHR ''>'' \<notin> set r \<and> strip r \<noteq> []"

fun run_more :: "(string \<times> string \<times> string) list \<Rightarrow> string" where
  "run_more [] = []"
| "run_more ((w1, w2, k) # ms) = w1 @ '','' @ w2 @ marker k @ run_more ms"

definition citation_run :: "string \<Rightarrow> (string \<times> string \<times> string) list \<Rightarrow> string" where
  "citation_run k ms = marker k @ run_more ms"

definition more_ok :: "(string \<times> string \<times> string) list \<Rightarrow> bool" where
  "more_ok ms \<longleftrightarrow>
     (\<forall>(w1, w2, k) \<in> set ms. list_all is_space w1 \<and> list_all is_space w2 \<and> is_ident k)"

text \<open>
  The shape of an escaped citation macro, for the statement about \<^verbatim>\<open>fix_cites.py\<close>: the
  escape token \<^verbatim>\<open>\textbackslash\<close>, then whitespace or one backslash, then \<^verbatim>\<open>cite{key}\<close>,
  with or without a stray backslash before the closing brace. A key is not empty and
  holds neither a closing brace nor a backslash. \<open>bs_safe\<close> says that no backslash of a
  text is followed by the letter t and that the text does not end with a backslash: the
  escape token cannot start in such a text.
\<close>

abbreviation token :: string where
  "token \<equiv> bs # ''textbackslash''"





text \<open>
  What the fixer looks for, said of the text alone. \<open>cite_follows u\<close>: \<open>u\<close> goes on with
  whitespace and then \<^verbatim>\<open>cite\<close>, or with \<^verbatim>\<open>\cite\<close>. \<open>escape_free\<close>: at no place of the text
  does the escape token stand with \<^verbatim>\<open>cite\<close> following in one of these two ways.
  \<open>stray_at u\<close>: \<open>u\<close> starts with \<^verbatim>\<open>\cite{\<close>, a closing brace comes after it, and the
  character right before the first closing brace is a backslash. \<open>stray_free\<close>: this
  holds at no place of the text.
\<close>

definition cite_follows :: "string \<Rightarrow> bool" where
  "cite_follows u \<longleftrightarrow>
     (takeWhile is_space u \<noteq> [] \<and> prefix ''cite'' (dropWhile is_space u))
     \<or> prefix (bs # ''cite'') u"

fun escape_free :: "string \<Rightarrow> bool" where
  "escape_free [] = True"
| "escape_free (c # cs) =
     (\<not> (prefix token (c # cs) \<and> cite_follows (drop (length token) (c # cs)))
      \<and> escape_free cs)"

definition stray_at :: "string \<Rightarrow> bool" where
  "stray_at u \<longleftrightarrow>
     prefix (bs # ''cite{'') u
     \<and> takeWhile (\<lambda>c. c \<noteq> CHR ''}'') (drop 6 u) \<noteq> []
     \<and> last (takeWhile (\<lambda>c. c \<noteq> CHR ''}'') (drop 6 u)) = bs
     \<and> dropWhile (\<lambda>c. c \<noteq> CHR ''}'') (drop 6 u) \<noteq> []"

fun stray_free :: "string \<Rightarrow> bool" where
  "stray_free [] = True"
| "stray_free (c # cs) = (\<not> stray_at (c # cs) \<and> stray_free cs)"

section \<open>Facts about the matcher\<close>

lemma step1_suffix: "s' \<in> set (step1 ok s) \<Longrightarrow> suffix (fst s') (fst s)"
  by (cases "(ok, s)" rule: step1.cases) (auto simp: suffix_def split: if_splits)

lemma matches_suffix: "s' \<in> set (matches r s) \<Longrightarrow> suffix (fst s') (fst s)"
proof (induction r s arbitrary: s' rule: matches.induct)
  case (6 r1 r2 s)
  from "6.prems" obtain x where x: "x \<in> set (matches r1 s)" "length (fst x) \<le> length (fst s)"
      "s' \<in> set (matches r2 x)"
    unfolding matches.simps set_concat by fastforce
  from x have "suffix (fst x) (fst s)" "suffix (fst s') (fst x)"
    using "6.IH" by auto
  then show ?case
    by (rule suffix_order.trans[rotated])
next
  case (7 r s)
  show ?case
  proof (cases "s' = s")
    case False
    with "7.prems" have "s' \<in> set (concat (map (matches (Star r))
        (filter (\<lambda>s'. length (fst s') < length (fst s)) (matches r s))))"
      by (simp add: matches.simps(7)[of r s])
    then obtain x where x: "x \<in> set (matches r s)" "length (fst x) < length (fst s)"
        "s' \<in> set (matches (Star r) x)"
      unfolding set_concat by fastforce
    from x have "suffix (fst x) (fst s)" "suffix (fst s') (fst x)"
      using "7.IH" by auto
    then show ?thesis
      by (rule suffix_order.trans[rotated])
  qed simp
next
  case (8 r s)
  show ?case
  proof (cases "s' = s")
    case False
    with "8.prems" have "s' \<in> set (concat (map (matches (LazyStar r))
        (filter (\<lambda>s'. length (fst s') < length (fst s)) (matches r s))))"
      by (simp add: matches.simps(8)[of r s])
    then obtain x where x: "x \<in> set (matches r s)" "length (fst x) < length (fst s)"
        "s' \<in> set (matches (LazyStar r) x)"
      unfolding set_concat by fastforce
    from x have "suffix (fst x) (fst s)" "suffix (fst s') (fst x)"
      using "8.IH" by auto
    then show ?thesis
      by (rule suffix_order.trans[rotated])
  qed simp
qed (auto dest: step1_suffix split: list.splits if_splits)

lemma matches_length: "s' \<in> set (matches r s) \<Longrightarrow> length (fst s') \<le> length (fst s)"
  by (drule matches_suffix) (rule suffix_length_le)

lemma matches_Seq: "matches (Seq r1 r2) s = concat (map (matches r2) (matches r1 s))"
proof -
  have "filter (\<lambda>s'. length (fst s') \<le> length (fst s)) (matches r1 s) = matches r1 s"
    by (rule filter_True) (simp add: matches_length)
  then show ?thesis by (simp add: matches.simps(6))
qed

lemma match_here_first: "match_here r False text = first_of (matches r (text, None))"
proof -
  have "\<And>s'. s' \<in> set (matches r (text, None)) \<Longrightarrow>
          length (fst s') < length text \<or> length (fst s') = length text"
    using matches_length [of _ r "(text, None)"] by fastforce
  then have "filter (\<lambda>s'. length (fst s') < length text \<or> (\<not> False \<and> length (fst s') = length text))
          (matches r (text, None)) = matches r (text, None)"
    by (intro filter_True) simp
  then show ?thesis by (simp add: match_here_def first_of_def)
qed


lemma first_of_simps [simp]: "first_of [] = None" "first_of (x # xs) = Some x"
  by (simp_all add: first_of_def)

lemma matches_Str:
  "matches (Str l) (text, g) = (if prefix l text then [(drop (length l) text, g)] else [])"
proof (induction l arbitrary: "text")
  case Nil
  show ?case by (simp add: Str.simps)
next
  case (Cons c l)
  show ?case
  proof (cases "text")
    case Nil
    then show ?thesis by (simp add: matches_Seq Str.simps)
  next
    case (Cons x xs)
    with Cons.IH [of xs] show ?thesis by (simp add: matches_Seq Str.simps)
  qed
qed

lemma matches_Seq_Str:
  "matches (Seq (Str l) r) (text, g) = (if prefix l text then matches r (drop (length l) text, g) else [])"
  by (simp add: matches_Seq matches_Str)

lemma matches_Star_class:
  assumes "\<And>s. matches r s = step1 ok s"
  shows "matches (Star r) (text, g) = map (\<lambda>t. (t, g)) (backoff ok text)"
proof (induction "text")
  case Nil
  show ?case by (simp add: matches.simps(7) assms)
next
  case (Cons x xs)
  then show ?case by (simp add: matches.simps(7)[of r "(x # xs, g)"] assms)
qed

lemma matches_LazyStar_class:
  assumes "\<And>s. matches r s = step1 ok s"
  shows "matches (LazyStar r) (text, g) = map (\<lambda>t. (t, g)) (rev (backoff ok text))"
proof (induction "text")
  case Nil
  show ?case by (simp add: matches.simps(8) assms)
next
  case (Cons x xs)
  then show ?case by (simp add: matches.simps(8)[of r "(x # xs, g)"] assms)
qed

lemma backoff_head: "\<exists>junk. backoff ok text = dropWhile ok text # junk
    \<and> (\<forall>t \<in> set junk. \<exists>x xs. t = x # xs \<and> ok x)"
  by (induction "text") auto

lemma concat_backoff:
  assumes "\<And>x xs. ok x \<Longrightarrow> F (x # xs) = []"
  shows "concat (map F (backoff ok t)) = F (dropWhile ok t)"
  by (induction t) (simp_all add: assms)


lemma matches_Plus_class:
  assumes "\<And>s. matches r s = step1 ok s"
  shows "matches (Plus r) (t, g) =
    (case t of [] \<Rightarrow> [] | x # xs \<Rightarrow> if ok x then map (\<lambda>u. (u, g)) (backoff ok xs) else [])"
  by (cases t) (simp_all add: Plus_def matches_Seq assms matches_Star_class [OF assms])

lemma matches_Seq_Star_class:
  assumes r: "\<And>s. matches r s = step1 ok s"
    and r2: "\<And>x xs g. ok x \<Longrightarrow> matches r2 (x # xs, g) = []"
  shows "matches (Seq (Star r) r2) (t, g) = matches r2 (dropWhile ok t, g)"
proof -
  have "matches (Seq (Star r) r2) (t, g) = concat (map (\<lambda>u. matches r2 (u, g)) (backoff ok t))"
    by (simp add: matches_Seq matches_Star_class [OF r] comp_def)
  also have "\<dots> = matches r2 (dropWhile ok t, g)"
    by (rule concat_backoff) (simp add: r2)
  finally show ?thesis .
qed

lemma matches_Seq_Plus_class:
  assumes r: "\<And>s. matches r s = step1 ok s"
    and r2: "\<And>x xs g. ok x \<Longrightarrow> matches r2 (x # xs, g) = []"
  shows "matches (Seq (Plus r) r2) (t, g) =
    (if takeWhile ok t = [] then [] else matches r2 (dropWhile ok t, g))"
proof (cases t)
  case Nil
  then show ?thesis
    by (simp add: matches_Seq matches_Plus_class [OF r])
next
  case (Cons x xs)
  show ?thesis
  proof (cases "ok x")
    case False
    with Cons show ?thesis
      by (simp add: matches_Seq matches_Plus_class [OF r])
  next
    case True
    have "matches (Seq (Plus r) r2) (t, g) = concat (map (\<lambda>u. matches r2 (u, g)) (backoff ok xs))"
      using Cons True by (simp add: matches_Seq matches_Plus_class [OF r] comp_def)
    also have "\<dots> = matches r2 (dropWhile ok xs, g)"
      by (rule concat_backoff) (simp add: r2)
    finally show ?thesis
      using Cons True by simp
  qed
qed



lemma not_close_class:
  "(\<lambda>c. \<not> list_ex (\<lambda>it. item_ok it c) [Chr d]) = (\<lambda>c. c \<noteq> d)"
  by (simp add: fun_eq_iff)













lemma sub_loop_count0:
  "count = 0 \<Longrightarrow> sub_loop r f count n adv t = sub_loop r f count m adv t"
proof (induction r f count n adv t arbitrary: m rule: sub_loop.induct)
  case (1 r f count n adv t)
  note L = sub_loop.simps [of r f count n adv t] and R = sub_loop.simps [of r f count m adv t]
  have nc: "\<not> (count \<noteq> 0 \<and> count \<le> n)"
    using "1.prems" by simp
  show ?case
  proof (cases "match_here r adv t")
    case None
    show ?thesis
    proof (cases t)
      case Nil
      with None "1.prems" show ?thesis
        unfolding L R by simp
    next
      case (Cons c cs)
      have "sub_loop r f count n False cs = sub_loop r f count m False cs"
        by (rule "1.IH") fact+
      with None Cons "1.prems" show ?thesis
        unfolding L R by simp
    qed
  next
    case (Some s')
    show ?thesis
    proof (cases "length (fst s') < length t")
      case True
      have "sub_loop r f count (Suc n) False (fst s') = sub_loop r f count (Suc m) False (fst s')"
        by (rule "1.IH") fact+
      with Some True "1.prems" show ?thesis
        unfolding L R by simp
    next
      case False
      have "sub_loop r f count (Suc n) True t = sub_loop r f count (Suc m) True t"
        by (rule "1.IH") fact+
      with Some False "1.prems" show ?thesis
        unfolding L R by simp
    qed
  qed
qed

lemma sub_loop_skip:
  assumes "\<And>p. p < length pre \<Longrightarrow> match_here r False (drop p pre @ t) = None"
  shows "sub_loop r f 0 n False (pre @ t) = pre @ sub_loop r f 0 n False t"
  using assms
proof (induction pre)
  case Nil
  show ?case by simp
next
  case (Cons c pre)
  from Cons.prems [of 0] have n: "match_here r False (c # pre @ t) = None"
    by simp
  have "\<And>p. p < length pre \<Longrightarrow> match_here r False (drop p pre @ t) = None"
    using Cons.prems [of "Suc p" for p] by simp
  from Cons.IH [OF this] n show ?case
    by (simp add: sub_loop.simps [of r f 0 n False "c # pre @ t"])
qed

lemma sub_loop_match:
  assumes "match_here r False t = Some s'" "length (fst s') < length t"
  shows "sub_loop r f 0 0 False t = f (consumed t s') @ sub_loop r f 0 0 False (fst s')"
  using assms sub_loop_count0 [of 0 r f "Suc 0" False "fst s'" 0]
  by (simp add: sub_loop.simps [of r f 0 0 False t])

lemma space_class: "item_ok Space = is_space"
  by (simp add: fun_eq_iff)

lemma backoff_last: "\<exists>init. backoff ok t = init @ [t]"
  by (cases t) auto

lemma lazy_first:
  assumes "\<forall>x \<in> set xs. ok x"
    and "\<And>j. j < length xs \<Longrightarrow> F (drop j xs @ Y) = []"
  shows "\<exists>junk. concat (map F (rev (backoff ok (xs @ Y)))) = F Y @ junk"
  using assms
proof (induction xs)
  case Nil
  from backoff_last [of ok Y] obtain init where "backoff ok Y = init @ [Y]"
    by blast
  then show ?case by simp
next
  case (Cons x xs)
  from Cons.prems(2) [of 0] have f0: "F (x # xs @ Y) = []"
    by simp
  have "\<And>j. j < length xs \<Longrightarrow> F (drop j xs @ Y) = []"
    using Cons.prems(2) [of "Suc j" for j] by simp
  with Cons.IH Cons.prems(1) obtain junk where
    "concat (map F (rev (backoff ok (xs @ Y)))) = F Y @ junk"
    by auto
  with Cons.prems(1) f0 show ?case
    by simp
qed

lemma strip_decomp:
  assumes "strip r \<noteq> []"
  shows "\<exists>ws1 ws2. r = ws1 @ strip r @ ws2 \<and> list_all is_space ws1 \<and> list_all is_space ws2"
    and "\<not> is_space (hd (strip r))" and "\<not> is_space (last (strip r))"
proof -
  define d where "d = dropWhile is_space r"
  define e where "e = dropWhile is_space (rev d)"
  have s: "strip r = rev e"
    by (simp add: strip_def d_def e_def)
  with assms have ne: "e \<noteq> []"
    by simp
  have "rev d = takeWhile is_space (rev d) @ e"
    by (simp add: e_def)
  then have d: "d = rev e @ rev (takeWhile is_space (rev d))"
    by (metis rev_append rev_rev_ident)
  have r: "r = takeWhile is_space r @ d"
    by (simp add: d_def)
  have a1: "list_all is_space (takeWhile is_space r)"
    by (simp add: list_all_iff) (meson set_takeWhileD)
  have a2: "list_all is_space (rev (takeWhile is_space (rev d)))"
    by (simp add: list_all_iff) (meson set_takeWhileD)
  from r d s have "r = takeWhile is_space r @ strip r @ rev (takeWhile is_space (rev d))"
    by metis
  with a1 a2 show "\<exists>ws1 ws2. r = ws1 @ strip r @ ws2 \<and> list_all is_space ws1 \<and> list_all is_space ws2"
    by blast
  from ne have "\<not> is_space (hd e)"
    unfolding e_def by (rule hd_dropWhile)
  with ne show "\<not> is_space (last (strip r))"
    by (simp add: s last_rev)
  from ne d have dne: "d \<noteq> []"
    by auto
  then have "\<not> is_space (hd d)"
    unfolding d_def by (rule hd_dropWhile)
  moreover from d ne have "hd d = hd (rev e)"
    by (metis hd_append2 rev_is_Nil_conv)
  ultimately show "\<not> is_space (hd (strip r))"
    by (simp add: s)
qed

section \<open>The section split\<close>

lemma take_drop_take:
  assumes "a \<le> b"
  shows "take a xs @ drop a (take b xs) @ drop b xs = xs"
proof -
  from assms have "take a xs = take a (take b xs)"
    by (simp add: min_def)
  then have "take a xs @ drop a (take b xs) = take b xs"
    by (metis append_take_drop_id)
  then show ?thesis
    by (metis append_assoc append_take_drop_id)
qed

text \<open>
  C10. For every input text, the three segments that \<^verbatim>\<open>split_sections\<close> returns (the body
  before the References heading, the references block, the trailing block) concatenate
  to the input text: nothing is dropped, duplicated or reordered.
\<close>

theorem split_sections_concat:
  assumes "split_sections text = (before_refs, refs, after_refs)"
  shows "before_refs @ refs @ after_refs = text"
proof (cases "re_search_bol heading_re text")
  case None
  with assms show ?thesis
    by (simp add: split_sections_def)
next
  case (Some m)
  define refs_end where "refs_end =
    (case re_search_bol next_heading_re (drop (fst m + 1) text) of
       Some m_next \<Rightarrow> fst m + 1 + fst m_next
     | None \<Rightarrow> length text)"
  have le: "fst m \<le> refs_end \<or> length text \<le> fst m"
    by (auto simp: refs_end_def split: option.splits)
  from assms Some have parts:
    "before_refs = take (fst m) text" "refs = drop (fst m) (take refs_end text)"
    "after_refs = drop refs_end text"
    by (simp_all add: split_sections_def Let_def refs_end_def)
  from le show ?thesis
  proof
    assume "fst m \<le> refs_end"
    then show ?thesis
      unfolding parts by (rule take_drop_take)
  next
    assume "length text \<le> fst m"
    then show ?thesis
      unfolding parts by (simp add: refs_end_def split: option.splits)
  qed
qed

theorem split_sections_concat_witness:
  "split_sections ''a <<k>>\<newline>== References\<newline>* [[k]] K\<newline>== Next\<newline>z'' =
     (''a <<k>>\<newline>'', ''== References\<newline>* [[k]] K\<newline>'', ''== Next\<newline>z'')
   \<and> ''a <<k>>\<newline>'' @ ''== References\<newline>* [[k]] K\<newline>'' @ ''== Next\<newline>z'' =
     ''a <<k>>\<newline>== References\<newline>* [[k]] K\<newline>== Next\<newline>z''"
proof -
  have h: "split_sections ''a <<k>>\<newline>== References\<newline>* [[k]] K\<newline>== Next\<newline>z'' =
     (''a <<k>>\<newline>'', ''== References\<newline>* [[k]] K\<newline>'', ''== Next\<newline>z'')"
    by code_simp
  from h split_sections_concat [OF h] show ?thesis
    by simp
qed

section \<open>Documents without a References heading\<close>

lemma split_nl_acc:
  "split_nl acc t = (rev acc @ takeWhile (\<lambda>c. c \<noteq> CHR 0x0A) t) # tl (split_nl [] t)"
proof (induction t arbitrary: acc)
  case Nil
  show ?case by simp
next
  case (Cons c cs)
  show ?case
  proof (cases "c = CHR 0x0A")
    case True
    then show ?thesis by simp
  next
    case False
    with Cons.IH [of "c # acc"] Cons.IH [of "[c]"] show ?thesis
      by simp
  qed
qed

lemma eol_after_spaces:
  "(\<exists>v \<in> set (backoff is_space u). matches Eol (v, g) \<noteq> []) \<longleftrightarrow>
     list_all is_space (takeWhile (\<lambda>c. c \<noteq> CHR 0x0A) u)"
proof (induction u)
  case Nil
  show ?case by simp
next
  case (Cons x xs)
  have nl: "is_space CHR 0x0A"
    by (simp add: is_space_def)
  show ?case
  proof (cases "x = CHR 0x0A")
    case True
    with nl show ?thesis by auto
  next
    case False
    with Cons.IH show ?thesis by auto
  qed
qed

lemma concat_map_nonempty: "concat (map F xs) \<noteq> [] \<longleftrightarrow> (\<exists>v \<in> set xs. F v \<noteq> [])"
  by (induction xs) auto

lemma heading_re_matches:
  "matches heading_re (t, None) \<noteq> [] \<longleftrightarrow> is_heading_line (takeWhile (\<lambda>c. c \<noteq> CHR 0x0A) t)"
proof -
  define H where "H = ''== References''"
  have one: "\<And>s. matches (One Space) s = step1 is_space s"
    by (simp add: space_class)
  have hn: "CHR 0x0A \<notin> set H"
    by (simp add: H_def)
  have m: "matches heading_re (t, None) =
      (if prefix H t
       then concat (map (\<lambda>v. matches Eol (v, None)) (backoff is_space (drop (length H) t)))
       else [])"
    by (simp add: heading_re_def H_def matches_Seq_Str matches_Seq [of "Star (One Space)"]
        matches_Star_class [OF one] comp_def)
  show ?thesis
  proof (cases "prefix H t")
    case False
    have "\<not> prefix H (takeWhile (\<lambda>c. c \<noteq> CHR 0x0A) t)"
    proof
      assume "prefix H (takeWhile (\<lambda>c. c \<noteq> CHR 0x0A) t)"
      moreover have "prefix (takeWhile (\<lambda>c. c \<noteq> CHR 0x0A) t) t"
        by (metis prefixI takeWhile_dropWhile_id)
      ultimately have "prefix H t"
        by (rule prefix_order.trans)
      with False show False ..
    qed
    with False m show ?thesis
      by (simp add: is_heading_line_def H_def)
  next
    case True
    then obtain u where t: "t = H @ u"
      by (auto simp: prefix_def)
    from hn have tw: "takeWhile (\<lambda>c. c \<noteq> CHR 0x0A) (H @ u) = H @ takeWhile (\<lambda>c. c \<noteq> CHR 0x0A) u"
      by (intro takeWhile_append2) auto
    from m have "matches heading_re (t, None) =
        concat (map (\<lambda>v. matches Eol (v, None)) (backoff is_space u))"
      by (simp add: t)
    then have "matches heading_re (t, None) \<noteq> [] \<longleftrightarrow>
        (\<exists>v \<in> set (backoff is_space u). matches Eol (v, None) \<noteq> [])"
      by (simp only: concat_map_nonempty)
    also have "\<dots> \<longleftrightarrow> list_all is_space (takeWhile (\<lambda>c. c \<noteq> CHR 0x0A) u)"
      by (rule eol_after_spaces)
    also have "\<dots> \<longleftrightarrow> is_heading_line (takeWhile (\<lambda>c. c \<noteq> CHR 0x0A) t)"
      unfolding t tw by (simp add: is_heading_line_def H_def [symmetric])
    finally show ?thesis .
  qed
qed

lemma heading_here:
  "match_here heading_re False t = None \<longleftrightarrow> \<not> is_heading_line (takeWhile (\<lambda>c. c \<noteq> CHR 0x0A) t)"
  using heading_re_matches [of t]
  by (cases "matches heading_re (t, None)") (simp_all add: match_here_first)

lemma heading_search_lines:
  "(re_search_from True heading_re True i t = None \<longleftrightarrow>
      (\<forall>l \<in> set (split_nl [] t). \<not> is_heading_line l))
   \<and> (re_search_from True heading_re False i t = None \<longleftrightarrow>
      (\<forall>l \<in> set (tl (split_nl [] t)). \<not> is_heading_line l))"
proof (induction t arbitrary: i)
  case Nil
  show ?case
    using heading_here [of "[]"] by (auto split: option.splits)
next
  case (Cons c cs)
  note h = heading_here [of "c # cs"]
  show ?case
  proof (cases "c = CHR 0x0A")
    case True
    then have "\<not> is_heading_line (takeWhile (\<lambda>c. c \<noteq> CHR 0x0A) (c # cs))"
      by (simp add: is_heading_line_def)
    with h have "match_here heading_re False (c # cs) = None"
      by simp
    with True Cons.IH [of "Suc i"] show ?thesis
      by (simp add: is_heading_line_def)
  next
    case False
    have s: "split_nl [] (c # cs) = (c # takeWhile (\<lambda>c. c \<noteq> CHR 0x0A) cs) # tl (split_nl [] cs)"
      using False split_nl_acc [of "[c]" cs] by simp
    from False have tw: "takeWhile (\<lambda>c. c \<noteq> CHR 0x0A) (c # cs) = c # takeWhile (\<lambda>c. c \<noteq> CHR 0x0A) cs"
      by simp
    from False Cons.IH [of "Suc i"] h show ?thesis
      unfolding s tw by (auto split: option.splits)
  qed
qed

lemma no_heading_line:
  "re_search_bol heading_re t = None \<longleftrightarrow> (\<forall>l \<in> set (text_lines t). \<not> is_heading_line l)"
  using heading_search_lines [of 0 t] by (simp add: re_search_bol_def text_lines_def)

lemma universal_newlines_id: "CHR 0x0D \<notin> set t \<Longrightarrow> universal_newlines t = t"
  by (induction t rule: universal_newlines.induct) auto

lemma main_stdin:
  "number_citations_main [prog] w =
     (Returned, w\<lparr>stdin := [], stdout := stdout w @ numbered_text (stdin w),
                   io_log := io_log w @ [Read_stdin]\<rparr>)"
  by (simp add: number_citations_main_def read_input_def read_stdin_def)

lemma main_dash:
  "number_citations_main [prog, ''-''] w =
     (Returned, w\<lparr>stdin := [], stdout := stdout w @ numbered_text (stdin w),
                   io_log := io_log w @ [Read_stdin]\<rparr>)"
  by (simp add: number_citations_main_def read_input_def read_stdin_def)

lemma main_file:
  "path \<noteq> ''-'' \<Longrightarrow> files w path = Some stored \<Longrightarrow>
   number_citations_main [prog, path] w =
     (Returned, w\<lparr>stdout := stdout w @ numbered_text (universal_newlines stored),
                   io_log := io_log w @ [Read_file path]\<rparr>)"
  by (simp add: number_citations_main_def read_input_def read_file_def)

lemma numbered_text_no_heading:
  assumes "\<forall>l \<in> set (text_lines t). \<not> is_heading_line l"
  shows "numbered_text t = t"
proof -
  from assms have "re_search_bol heading_re t = None"
    by (simp add: no_heading_line)
  then have "split_sections t = (t, [], [])"
    by (simp add: split_sections_def)
  then show ?thesis
    by (simp add: numbered_text_def)
qed

text \<open>
  C8. The claim gives the passthrough to every document none of whose lines is exactly
  the heading. The heading pattern is \<^verbatim>\<open>^== References\s*$\<close>, so a line that carries blanks
  after \<^verbatim>\<open>== References\<close> is a heading as well: in the document below no line equals
  \<^verbatim>\<open>== References\<close>, and the transformer still numbers the citation and the anchor and
  drops the last line break.
\<close>

theorem heading_with_trailing_blanks:
  "''== References'' \<notin> set (text_lines ''See <<a>>.\<newline>== References  \<newline>* [[a]] A\<newline>'')
   \<and> number_citations_main [''number_citations.py'']
         \<lparr>files = Map.empty, stdin = ''See <<a>>.\<newline>== References  \<newline>* [[a]] A\<newline>'',
          stdout = [], stderr = [], io_log = []\<rparr> =
       (Returned,
         \<lparr>files = Map.empty, stdin = [],
          stdout = ''See [1].\<newline>== References  \<newline>* [1] A'', stderr = [],
          io_log = [Read_stdin]\<rparr>)"
proof -
  have "''== References'' \<notin> set (text_lines ''See <<a>>.\<newline>== References  \<newline>* [[a]] A\<newline>'')"
    by code_simp
  moreover have "numbered_text ''See <<a>>.\<newline>== References  \<newline>* [[a]] A\<newline>'' =
      ''See [1].\<newline>== References  \<newline>* [1] A''"
    by code_simp
  ultimately show ?thesis
    by (simp add: main_stdin)
qed

text \<open>
  C8, amended. For every input document in which no line (the text between two \<^verbatim>\<open>\n\<close>, or
  between an end of the document and a \<^verbatim>\<open>\n\<close>) is \<^verbatim>\<open>== References\<close> followed by nothing
  but whitespace, the transformer returns normally and its output is the text it has
  read: standard input as it is when there is no argument or the argument is \<^verbatim>\<open>-\<close>, and
  the content of the named file with \<^verbatim>\<open>\r\n\<close> and \<^verbatim>\<open>\r\<close> read as \<^verbatim>\<open>\n\<close> otherwise.
  Nothing else of the world changes, but that the input has been read.
\<close>

theorem passthrough_without_heading:
  assumes "\<forall>l \<in> set (text_lines text). \<not> is_heading_line l"
  shows "(stdin w = text \<longrightarrow>
            number_citations_main [prog] w =
              (Returned, w\<lparr>stdin := [], stdout := stdout w @ text,
                            io_log := io_log w @ [Read_stdin]\<rparr>)
          \<and> number_citations_main [prog, ''-''] w =
              (Returned, w\<lparr>stdin := [], stdout := stdout w @ text,
                            io_log := io_log w @ [Read_stdin]\<rparr>))
    \<and> (path \<noteq> ''-'' \<and> files w path = Some stored \<and> universal_newlines stored = text \<longrightarrow>
            number_citations_main [prog, path] w =
              (Returned, w\<lparr>stdout := stdout w @ text,
                            io_log := io_log w @ [Read_file path]\<rparr>))"
proof -
  from assms have "numbered_text text = text"
    by (rule numbered_text_no_heading)
  then show ?thesis
    by (auto simp: main_stdin main_dash main_file)
qed

theorem passthrough_without_heading_witness:
  "number_citations_main [''number_citations.py'']
      \<lparr>files = Map.empty, stdin = ''Intro <<a>>\<newline>=== References\<newline>* [[a]] A\<newline>'',
       stdout = [], stderr = [], io_log = []\<rparr> =
     (Returned,
       \<lparr>files = Map.empty, stdin = [],
        stdout = ''Intro <<a>>\<newline>=== References\<newline>* [[a]] A\<newline>'', stderr = [],
        io_log = [Read_stdin]\<rparr>)
   \<and> number_citations_main [''number_citations.py'', ''doc.adoc'']
      \<lparr>files = [''doc.adoc'' \<mapsto> ''Intro <<a>>'' @ [CHR 0x0D, CHR 0x0A] @ ''References ==\<newline>* [[a]] A''],
       stdin = [], stdout = [], stderr = [], io_log = []\<rparr> =
     (Returned,
       \<lparr>files = [''doc.adoc'' \<mapsto> ''Intro <<a>>'' @ [CHR 0x0D, CHR 0x0A] @ ''References ==\<newline>* [[a]] A''],
        stdin = [],
        stdout = ''Intro <<a>>\<newline>References ==\<newline>* [[a]] A'', stderr = [],
        io_log = [Read_file ''doc.adoc'']\<rparr>)"
proof -
  let ?t = "''Intro <<a>>\<newline>=== References\<newline>* [[a]] A\<newline>''"
  let ?w = "\<lparr>files = Map.empty, stdin = ?t, stdout = [], stderr = [], io_log = []\<rparr>"
  let ?s = "''Intro <<a>>'' @ [CHR 0x0D, CHR 0x0A] @ ''References ==\<newline>* [[a]] A''"
  let ?u = "''Intro <<a>>\<newline>References ==\<newline>* [[a]] A''"
  let ?v = "\<lparr>files = [''doc.adoc'' \<mapsto> ?s], stdin = [], stdout = [], stderr = [], io_log = []\<rparr>"
  have h1: "\<forall>l \<in> set (text_lines ?t). \<not> is_heading_line l"
    by code_simp
  have h2: "\<forall>l \<in> set (text_lines ?u). \<not> is_heading_line l"
    by code_simp
  have n: "universal_newlines ?s = ?u"
    by code_simp
  from passthrough_without_heading [OF h1, of ?w "''number_citations.py''" "''x''" "[]"]
    passthrough_without_heading [OF h2, of ?v "''number_citations.py''" "''doc.adoc''" ?s] n
  show ?thesis
    by simp
qed

section \<open>Wrong argument counts\<close>

text \<open>
  C9. When \<^verbatim>\<open>fix_cites.py\<close> is called with any number of arguments other than one
  (\<^verbatim>\<open>len(sys.argv) != 2\<close>), and when \<^verbatim>\<open>number_citations.py\<close> is called with more than one
  (\<^verbatim>\<open>len(sys.argv) > 2\<close>), the run ends with exit status 1, the usage line is appended
  to standard error, and nothing else of the world changes: no file is read or written,
  standard input is not read, nothing goes to standard output.
\<close>

theorem usage_error_no_io:
  "(length argv \<noteq> 2 \<longrightarrow>
      fix_cites_main argv w =
        (SysExit 1, w\<lparr>stderr := stderr w @ ''Usage: fix_cites.py path/to/file.tex\<newline>''\<rparr>)
      \<and> io_log (snd (fix_cites_main argv w)) = io_log w
      \<and> files (snd (fix_cites_main argv w)) = files w)
   \<and> (2 < length argv \<longrightarrow>
      number_citations_main argv w =
        (SysExit 1, w\<lparr>stderr := stderr w @ ''Usage: number_citations.py [LLM-to-IAS.adoc]\<newline>''\<rparr>)
      \<and> io_log (snd (number_citations_main argv w)) = io_log w
      \<and> files (snd (number_citations_main argv w)) = files w)"
  by (simp add: fix_cites_main_def number_citations_main_def print_stderr_def)

theorem usage_error_no_io_witness:
  "length [''fix_cites.py'', ''a.tex'', ''b.tex''] \<noteq> 2
   \<and> 2 < length [''fix_cites.py'', ''a.tex'', ''b.tex'']
   \<and> fix_cites_main [''fix_cites.py'', ''a.tex'', ''b.tex'']
        \<lparr>files = [''a.tex'' \<mapsto> ''x''], stdin = ''y'', stdout = [], stderr = [], io_log = []\<rparr> =
       (SysExit 1,
        \<lparr>files = [''a.tex'' \<mapsto> ''x''], stdin = ''y'', stdout = [],
         stderr = ''Usage: fix_cites.py path/to/file.tex\<newline>'', io_log = []\<rparr>)
   \<and> number_citations_main [''fix_cites.py'', ''a.tex'', ''b.tex'']
        \<lparr>files = [''a.tex'' \<mapsto> ''x''], stdin = ''y'', stdout = [], stderr = [], io_log = []\<rparr> =
       (SysExit 1,
        \<lparr>files = [''a.tex'' \<mapsto> ''x''], stdin = ''y'', stdout = [],
         stderr = ''Usage: number_citations.py [LLM-to-IAS.adoc]\<newline>'', io_log = []\<rparr>)"
  using usage_error_no_io [of "[''fix_cites.py'', ''a.tex'', ''b.tex'']"
      "\<lparr>files = [''a.tex'' \<mapsto> ''x''], stdin = ''y'', stdout = [], stderr = [], io_log = []\<rparr>"]
  by simp

section \<open>Running the transformer on its own output\<close>

text \<open>
  C4. The claim is that a second run of the transformer on its own output, which holds
  no marker any more, gives that output back. \<^verbatim>\<open>renumber_references\<close> joins the lines of
  \<^verbatim>\<open>splitlines\<close> with a newline and so drops the line break that ends the references
  block. On the document below the first run leaves one of the two line breaks before
  the next heading; the second run takes that one too and glues the heading to the last
  reference.
\<close>

theorem second_run_changes_output:
  "numbered_text ''== References\<newline>[[a]] x\<newline>\<newline>== Next\<newline>'' =
     ''== References\<newline>[1] x\<newline>== Next\<newline>''
   \<and> numbered_text ''== References\<newline>[1] x\<newline>== Next\<newline>'' =
     ''== References\<newline>[1] x== Next\<newline>''"
  by code_simp

section \<open>Key collection\<close>

lemma record_key_cases:
  "record_key line (keys, m) =
     (case line_key line of
        None \<Rightarrow> (keys, m)
      | Some k \<Rightarrow> if m k = None then (keys @ [k], m(k \<mapsto> Suc (length keys))) else (keys, m))"
  by (auto simp: record_key_def line_key_def Let_def split: option.splits)

lemma numbered_step:
  assumes "numbered (keys, m)" "k \<notin> set keys"
  shows "numbered (keys @ [k], m(k \<mapsto> Suc (length keys)))"
proof -
  from assms have d: "distinct (keys @ [k])"
    by (simp add: numbered_def)
  from assms have dm: "dom (m(k \<mapsto> Suc (length keys))) = set (keys @ [k])"
    by (auto simp: numbered_def)
  have "(m(k \<mapsto> Suc (length keys))) ((keys @ [k]) ! i) = Some (Suc i)" if "i < length (keys @ [k])" for i
  proof (cases "i < length keys")
    case True
    with assms have "keys ! i \<noteq> k" "m (keys ! i) = Some (Suc i)"
      by (auto simp: numbered_def)
    with True show ?thesis by (simp add: nth_append)
  next
    case False
    with that have "i = length keys" by simp
    then show ?thesis by simp
  qed
  with d dm show ?thesis
    by (simp add: numbered_def)
qed

lemma fold_record_key:
  assumes "numbered (keys, m)"
  shows "numbered (fold record_key ls (keys, m))
    \<and> fst (fold record_key ls (keys, m)) =
        keys @ first_occurrences (filter (\<lambda>k. k \<notin> set keys) (List.map_filter line_key ls))"
  using assms
proof (induction ls arbitrary: keys m)
  case Nil
  then show ?case by (simp add: List.map_filter_simps)
next
  case (Cons l ls)
  show ?case
  proof (cases "line_key l")
    case None
    with Cons show ?thesis
      by (simp add: record_key_cases List.map_filter_simps)
  next
    case (Some k)
    show ?thesis
    proof (cases "k \<in> set keys")
      case True
      with Cons.prems obtain y where "m k = Some y"
        by (auto simp: numbered_def)
      with Some have "record_key l (keys, m) = (keys, m)"
        by (simp add: record_key_cases)
      with Some True Cons.IH [OF Cons.prems] show ?thesis
        by (simp add: List.map_filter_simps)
    next
      case False
      with Cons.prems have mk: "m k = None"
        by (auto simp: numbered_def)
      from Cons.prems False have n: "numbered (keys @ [k], m(k \<mapsto> Suc (length keys)))"
        by (rule numbered_step)
      have f: "filter (\<lambda>x. x \<notin> set (keys @ [k])) xs = filter (\<lambda>y. y \<noteq> k) (filter (\<lambda>x. x \<notin> set keys) xs)"
        for xs :: "string list"
        by (induction xs) auto
      let ?m' = "m(k \<mapsto> Suc (length keys))"
      from Some mk have "record_key l (keys, m) = (keys @ [k], ?m')"
        by (simp add: record_key_cases)
      then have step: "fold record_key (l # ls) (keys, m) = fold record_key ls (keys @ [k], ?m')"
        by simp
      from Some False
      have "filter (\<lambda>x. x \<notin> set keys) (List.map_filter line_key (l # ls)) =
          k # filter (\<lambda>x. x \<notin> set keys) (List.map_filter line_key ls)"
        by (simp add: List.map_filter_simps)
      then have fo: "first_occurrences (filter (\<lambda>x. x \<notin> set keys) (List.map_filter line_key (l # ls))) =
          k # first_occurrences (filter (\<lambda>x. x \<notin> set (keys @ [k])) (List.map_filter line_key ls))"
        by (simp only: first_occurrences.simps f)
      from Cons.IH [OF n] show ?thesis
        unfolding step fo by (simp only: append_assoc append_Cons append_Nil)
    qed
  qed
qed

lemma parse_reference_keys_numbered:
  "numbered (parse_reference_keys refs)
   \<and> fst (parse_reference_keys refs) =
       first_occurrences (List.map_filter line_key (splitlines refs))"
proof -
  have "numbered ([], Map.empty)"
    by (simp add: numbered_def)
  from fold_record_key [OF this, of "splitlines refs"] show ?thesis
    by (simp add: parse_reference_keys_def)
qed

text \<open>
  C2. Key collection scans the lines of the references block in order. The keys it
  returns are the first occurrences of the distinct identifiers the lines define, in
  order of first appearance; no key is listed twice, so a later occurrence of a key
  already seen gets no new rank; the mapping holds exactly these keys, each with its
  1-based position in the list. Both results are functions of the references block
  alone: the body is not an argument of \<^verbatim>\<open>parse_reference_keys\<close>.
\<close>

theorem parse_reference_keys_ranks:
  assumes "parse_reference_keys refs = (keys, key_to_num)"
  shows "keys = first_occurrences (List.map_filter line_key (splitlines refs))
    \<and> distinct keys
    \<and> dom key_to_num = set keys
    \<and> (\<forall>i < length keys. key_to_num (keys ! i) = Some (i + 1))"
proof -
  have "numbered (parse_reference_keys refs)"
    and "fst (parse_reference_keys refs) =
      first_occurrences (List.map_filter line_key (splitlines refs))"
    using parse_reference_keys_numbered [of refs] by blast+
  with assms show ?thesis
    by (simp add: numbered_def)
qed

theorem parse_reference_keys_ranks_witness:
  "fst (parse_reference_keys
          ''== References\<newline>* [[a]] A\<newline>* [[b]] B\<newline>* [[c]] C\<newline>* [[b]] again'') =
     [''a'', ''b'', ''c'']
   \<and> snd (parse_reference_keys
          ''== References\<newline>* [[a]] A\<newline>* [[b]] B\<newline>* [[c]] C\<newline>* [[b]] again'') ''a'' = Some 1
   \<and> snd (parse_reference_keys
          ''== References\<newline>* [[a]] A\<newline>* [[b]] B\<newline>* [[c]] C\<newline>* [[b]] again'') ''b'' = Some 2
   \<and> snd (parse_reference_keys
          ''== References\<newline>* [[a]] A\<newline>* [[b]] B\<newline>* [[c]] C\<newline>* [[b]] again'') ''c'' = Some 3"
proof -
  let ?refs = "''== References\<newline>* [[a]] A\<newline>* [[b]] B\<newline>* [[c]] C\<newline>* [[b]] again''"
  let ?keys = "fst (parse_reference_keys ?refs)"
  let ?m = "snd (parse_reference_keys ?refs)"
  have e: "parse_reference_keys ?refs = (?keys, ?m)"
    by simp
  have k: "?keys = [''a'', ''b'', ''c'']"
    by code_simp
  from parse_reference_keys_ranks [OF e]
  have r: "\<forall>i < length ?keys. ?m (?keys ! i) = Some (i + 1)"
    by blast
  have l: "length ?keys = 3"
    by (simp add: k)
  from r l have "?m (?keys ! 0) = Some 1" "?m (?keys ! 1) = Some 2" "?m (?keys ! 2) = Some 3"
    by simp_all
  then have "?m ''a'' = Some 1" "?m ''b'' = Some 2" "?m ''c'' = Some 3"
    by (simp_all add: k)
  with k show ?thesis
    by simp
qed

section \<open>The references block\<close>




















section \<open>Citation runs in the body\<close>

lemma not_space_chars [simp]:
  "\<not> is_space CHR ''<''" "\<not> is_space CHR ''>''" "\<not> is_space CHR '',''"
  by (simp_all add: is_space_def)

lemma marker_re_matches:
  "matches marker_re (t, g) =
     (if prefix ''<<'' t \<and> takeWhile (\<lambda>c. c \<noteq> CHR ''>'') (drop 2 t) \<noteq> []
         \<and> prefix ''>>'' (dropWhile (\<lambda>c. c \<noteq> CHR ''>'') (drop 2 t))
      then [(drop 2 (dropWhile (\<lambda>c. c \<noteq> CHR ''>'') (drop 2 t)), g)]
      else [])"
proof -
  have r2: "\<And>x xs g. x \<noteq> CHR ''>'' \<Longrightarrow> matches (Str ''>>'') (x # xs, g) = []"
    by (simp add: matches_Str)
  show ?thesis
    unfolding marker_re_def matches_Seq_Str
    by (simp add: matches_Seq_Plus_class [where ok = "\<lambda>c. c \<noteq> CHR ''>''"] not_close_class r2
        matches_Str numeral_2_eq_2)
qed

lemma marker_re_marker:
  assumes "k \<noteq> []" "CHR ''>'' \<notin> set k"
  shows "matches marker_re (marker k @ t, g) = [(t, g)]"
proof -
  from assms(2) have tw: "takeWhile (\<lambda>c. c \<noteq> CHR ''>'') (k @ ''>>'' @ t) = k"
    by (subst takeWhile_append2) auto
  from assms(2) have dw: "dropWhile (\<lambda>c. c \<noteq> CHR ''>'') (k @ ''>>'' @ t) = ''>>'' @ t"
    by (subst dropWhile_append2) auto
  have d: "drop 2 (marker k @ t) = k @ ''>>'' @ t"
    by (simp add: marker_def)
  show ?thesis
    unfolding marker_re_matches d tw dw using assms(1) by (simp add: marker_def)
qed

lemma marker_re_space: "is_space x \<Longrightarrow> matches marker_re (x # xs, g) = []"
  by (auto simp: marker_re_matches)

lemma more_re_matches:
  "matches more_re (t, g) =
     (case dropWhile is_space t of
        [] \<Rightarrow> []
      | c # t2 \<Rightarrow> if c = CHR '','' then matches marker_re (dropWhile is_space t2, g) else [])"
proof -
  have one: "\<And>s. matches (One Space) s = step1 is_space s"
    by (simp add: space_class)
  have r2: "\<And>x xs g. is_space x \<Longrightarrow>
      matches (Seq (One (Chr CHR '','')) (Seq (Star (One Space)) marker_re)) (x # xs, g) = []"
    by (auto simp: matches_Seq)
  have r3: "\<And>x xs g. is_space x \<Longrightarrow> matches marker_re (x # xs, g) = []"
    by (rule marker_re_space)
  have "matches more_re (t, g) =
      matches (Seq (One (Chr CHR '','')) (Seq (Star (One Space)) marker_re)) (dropWhile is_space t, g)"
    unfolding more_re_def by (rule matches_Seq_Star_class [OF one r2])
  also have "\<dots> = (case dropWhile is_space t of
        [] \<Rightarrow> []
      | c # t2 \<Rightarrow> if c = CHR '','' then matches marker_re (dropWhile is_space t2, g) else [])"
  proof (cases "dropWhile is_space t")
    case Nil
    show ?thesis unfolding Nil by (simp add: matches_Seq)
  next
    case (Cons c t2)
    have "matches (Seq (One (Chr CHR '','')) (Seq (Star (One Space)) marker_re)) (c # t2, g) =
        (if c = CHR '','' then matches (Seq (Star (One Space)) marker_re) (t2, g) else [])"
      by (simp add: matches_Seq)
    then show ?thesis
      unfolding Cons by (simp add: matches_Seq_Star_class [OF one r3])
  qed
  finally show ?thesis .
qed

lemma more_re_cap: "(matches more_re (t, g) = []) = (matches more_re (t, None) = [])"
proof (cases "dropWhile is_space t")
  case Nil
  show ?thesis unfolding more_re_matches Nil by simp
next
  case (Cons c t2)
  show ?thesis unfolding more_re_matches Cons by (simp add: marker_re_matches)
qed

lemma more_re_step:
  assumes "list_all is_space w1" "list_all is_space w2" "k \<noteq> []" "CHR ''>'' \<notin> set k"
  shows "matches more_re (w1 @ '','' @ w2 @ marker k @ t, g) = [(t, g)]"
proof -
  from assms(1) have d1: "dropWhile is_space (w1 @ '','' @ w2 @ marker k @ t) = '','' @ w2 @ marker k @ t"
    by (subst dropWhile_append2) (auto simp: list_all_iff)
  from assms(2) have d2: "dropWhile is_space (w2 @ marker k @ t) = marker k @ t"
    by (subst dropWhile_append2) (auto simp: list_all_iff marker_def)
  show ?thesis
    unfolding more_re_matches d1 using d2 marker_re_marker [OF assms(3,4)] by simp
qed


lemma star_more_run:
  assumes "more_ok ms" "matches more_re (post, None) = []"
  shows "\<exists>junk. matches (Star more_re) (run_more ms @ post, g) = (post, g) # junk"
  using assms(1)
proof (induction ms)
  case Nil
  from assms(2) have "matches more_re (post, g) = []"
    by (simp add: more_re_cap [of post g])
  then show ?case
    by (simp add: matches.simps(7) [of more_re "(post, g)"])
next
  case (Cons m ms)
  obtain w1 w2 k where m: "m = (w1, w2, k)"
    by (cases m)
  from Cons.prems m have ok: "list_all is_space w1" "list_all is_space w2" "is_ident k" "more_ok ms"
    by (simp_all add: more_ok_def)
  from Cons.IH [OF ok(4)] obtain junk where
    j: "matches (Star more_re) (run_more ms @ post, g) = (post, g) # junk"
    by blast
  define R where "R = run_more ms @ post"
  define T where "T = w1 @ '','' @ w2 @ marker k @ R"
  from ok have st: "matches more_re (T, g) = [(R, g)]"
    unfolding T_def by (intro more_re_step) (auto simp: is_ident_def strip_def)
  have len: "length R < length T"
    by (simp add: T_def)
  from j have j': "matches (Star more_re) (R, g) = (post, g) # junk"
    by (simp add: R_def)
  have "matches (Star more_re) (T, g) = ((post, g) # junk) @ [(T, g)]"
    by (subst matches.simps(7)) (simp add: st len j')
  moreover have "run_more (m # ms) @ post = T"
    by (simp add: m T_def R_def)
  ultimately show ?case
    by simp
qed

lemma citation_re_run:
  assumes "is_ident k" "more_ok ms" "matches more_re (post, None) = []"
  shows "match_here citation_re False (citation_run k ms @ post) = Some (post, Some (citation_run k ms))"
proof -
  let ?T = "citation_run k ms @ post"
  from assms(1) have mk: "matches marker_re (marker k @ run_more ms @ post, None) = [(run_more ms @ post, None)]"
    by (intro marker_re_marker) (auto simp: is_ident_def strip_def)
  from star_more_run [OF assms(2,3)] obtain junk where
    j: "matches (Star more_re) (run_more ms @ post, None) = (post, None) # junk"
    by blast
  have "matches (Seq marker_re (Star more_re)) (?T, None) = (post, None) # junk"
    by (simp add: matches_Seq citation_run_def mk j)
  then have "\<exists>junk'. matches citation_re (?T, None) = (post, Some (citation_run k ms)) # junk'"
    by (simp add: citation_re_def)
  then show ?thesis
    by (auto simp: match_here_first)
qed

lemma key_tail_matches:
  "matches (Seq (Star (One Space)) (Str ''>>'')) (u, c) = matches (Str ''>>'') (dropWhile is_space u, c)"
proof -
  have one: "\<And>s. matches (One Space) s = step1 is_space s"
    by (simp add: space_class)
  have r2: "\<And>x xs g. is_space x \<Longrightarrow> matches (Str ''>>'') (x # xs, g) = []"
    by (auto simp: matches_Str)
  show ?thesis
    by (rule matches_Seq_Star_class [OF one r2])
qed

lemma key_tail_fails:
  assumes "ys \<noteq> []" "\<not> is_space (last ys)" "CHR ''>'' \<notin> set ys"
  shows "matches (Seq (Star (One Space)) (Str ''>>'')) (ys @ rest, c) = []"
proof -
  from assms(1,2) have "dropWhile is_space (ys @ rest) = dropWhile is_space ys @ rest"
    by (intro dropWhile_append1 [of "last ys"]) simp_all
  moreover from assms(1,2) have ne: "dropWhile is_space ys \<noteq> []"
    by (metis dropWhile_eq_Nil_conv last_in_set)
  moreover from ne have "hd (dropWhile is_space ys) \<in> set ys"
    by (metis hd_in_set set_dropWhileD)
  with assms(3) have "hd (dropWhile is_space ys) \<noteq> CHR ''>''"
    by auto
  ultimately show ?thesis
    unfolding key_tail_matches by (cases "dropWhile is_space ys") (simp_all add: matches_Str)
qed

lemma key_re_padded:
  assumes "k \<noteq> []" "\<not> is_space (hd k)" "\<not> is_space (last k)" "CHR ''>'' \<notin> set k"
    and "list_all is_space ws1" "list_all is_space ws2"
  shows "\<exists>junk. matches key_re (''<<'' @ ws1 @ k @ ws2 @ ''>>'' @ t, None) = (t, Some k) # junk"
proof -
  from assms(1) obtain x xs where k: "k = x # xs"
    by (cases k) simp_all
  from assms k have x: "\<not> is_space x" "x \<noteq> CHR ''>''" and xs: "CHR ''>'' \<notin> set xs"
    and lst: "xs \<noteq> [] \<Longrightarrow> \<not> is_space (last xs)"
    by auto
  define Y where "Y = ws2 @ ''>>'' @ t"
  define T where "T = x # xs @ Y"
  define R2 where "R2 = Seq (Star (One Space)) (Str ''>>'')"
  define G where "G = Group (LazyPlus (NoneOf [Chr CHR ''>'']))"
  define F where "F u = matches R2 (u, Some (take (length T - length u) T))" for u
  have one: "\<And>s. matches (One Space) s = step1 is_space s"
    by (simp add: space_class)
  have cls: "\<And>s. matches (NoneOf [Chr CHR ''>'']) s = step1 (\<lambda>c. c \<noteq> CHR ''>'') s"
    by (simp add: not_close_class)
  have a: "matches key_re (''<<'' @ ws1 @ k @ ws2 @ ''>>'' @ t, None) =
      matches (Seq (Star (One Space)) (Seq G R2)) (ws1 @ T, None)"
    by (simp add: key_re_def matches_Seq_Str k T_def Y_def G_def R2_def)
  from assms(5) x(1) have dw: "dropWhile is_space (ws1 @ T) = T"
    by (subst dropWhile_append2) (auto simp: list_all_iff T_def)
  from backoff_head [of is_space "ws1 @ T"] obtain junk0 where
    b0: "backoff is_space (ws1 @ T) = T # junk0"
    unfolding dw by blast
  have b: "matches (Seq (Star (One Space)) (Seq G R2)) (ws1 @ T, None) =
      matches (Seq G R2) (T, None) @ concat (map (\<lambda>u. matches (Seq G R2) (u, None)) junk0)"
    by (simp add: matches_Seq [of "Star (One Space)"] matches_Star_class [OF one] b0 comp_def)
  have c: "matches G (T, None) =
      map (\<lambda>u. (u, Some (take (length T - length u) T))) (rev (backoff (\<lambda>c. c \<noteq> CHR ''>'') (xs @ Y)))"
    using x(2) by (simp add: G_def LazyPlus_def matches_Seq cls matches_LazyStar_class [OF cls] T_def comp_def)
  have d: "matches (Seq G R2) (T, None) = concat (map F (rev (backoff (\<lambda>c. c \<noteq> CHR ''>'') (xs @ Y))))"
    by (simp add: matches_Seq c comp_def F_def [abs_def])
  have e: "F (drop j xs @ Y) = []" if "j < length xs" for j
  proof -
    from that have ne: "drop j xs \<noteq> []" "xs \<noteq> []"
      by auto
    with lst have "\<not> is_space (last (drop j xs))"
      by simp
    moreover from xs have "CHR ''>'' \<notin> set (drop j xs)"
      by (meson in_set_dropD)
    ultimately show ?thesis
      unfolding F_def R2_def using ne(1) by (rule key_tail_fails [rotated 1])
  qed
  from xs have "\<forall>c \<in> set xs. c \<noteq> CHR ''>''"
    by auto
  from lazy_first [of xs "\<lambda>c. c \<noteq> CHR ''>''" F Y, OF this e] obtain junk1 where
    f: "concat (map F (rev (backoff (\<lambda>c. c \<noteq> CHR ''>'') (xs @ Y)))) = F Y @ junk1"
    by blast
  from assms(6) have dwy: "dropWhile is_space Y = ''>>'' @ t"
    unfolding Y_def by (subst dropWhile_append2) (auto simp: list_all_iff)
  have g: "F Y = [(t, Some k)]"
    by (simp add: F_def R2_def key_tail_matches dwy matches_Str) (simp add: T_def k)
  from a b d f g show ?thesis
    by simp
qed

lemma key_re_marker:
  assumes "is_ident r"
  shows "\<exists>junk. matches key_re (marker r @ t, None) = (t, Some (strip r)) # junk"
proof -
  from assms have s: "strip r \<noteq> []" and gt: "CHR ''>'' \<notin> set r"
    by (simp_all add: is_ident_def)
  from strip_decomp(1) [OF s] obtain ws1 ws2 where
    r: "r = ws1 @ strip r @ ws2" and ws: "list_all is_space ws1" "list_all is_space ws2"
    by blast
  from r gt have "CHR ''>'' \<notin> set (strip r)"
    by (metis Un_iff set_append)
  from key_re_padded [OF s strip_decomp(2,3) [OF s] this ws, of t]
  obtain junk where "matches key_re (''<<'' @ ws1 @ strip r @ ws2 @ ''>>'' @ t, None) = (t, Some (strip r)) # junk"
    by blast
  moreover have "marker r @ t = ''<<'' @ ws1 @ strip r @ ws2 @ ''>>'' @ t"
    unfolding marker_def using r by (metis append_assoc)
  ultimately show ?thesis
    by metis
qed

lemma key_re_no: "\<not> prefix ''<<'' u \<Longrightarrow> match_here key_re adv u = None"
  by (simp add: match_here_def key_re_def matches_Seq_Str)

lemma citation_re_no: "\<not> prefix ''<<'' u \<Longrightarrow> match_here citation_re adv u = None"
  by (simp add: match_here_def citation_re_def matches_Seq marker_re_matches)

lemma findall_skip:
  assumes "\<forall>c \<in> set pre. c \<noteq> CHR ''<''"
  shows "findall_loop key_re False (pre @ t) = findall_loop key_re False t"
  using assms
proof (induction pre)
  case Nil
  show ?case by simp
next
  case (Cons c pre)
  from Cons.prems have "c \<noteq> CHR ''<''"
    by simp
  then have "\<not> prefix ''<<'' (c # pre @ t)"
    by auto
  then have "match_here key_re False (c # pre @ t) = None"
    by (rule key_re_no)
  with Cons show ?case
    by (simp add: findall_loop.simps [of key_re False "c # pre @ t"])
qed

lemma findall_nil: "findall_loop key_re False [] = []"
  by (simp add: findall_loop.simps [of key_re False "[]"] key_re_no)

lemma findall_marker:
  assumes "is_ident k"
  shows "findall_loop key_re False (marker k @ t) = strip k # findall_loop key_re False t"
proof -
  define T where "T = marker k @ t"
  from key_re_marker [OF assms, of t] have m: "match_here key_re False T = Some (t, Some (strip k))"
    by (auto simp: match_here_first T_def)
  have len: "length t < length T"
    by (simp add: T_def marker_def)
  have "findall_loop key_re False T = strip k # findall_loop key_re False t"
    by (subst findall_loop.simps) (simp add: m len group1_def consumed_def)
  then show ?thesis
    by (simp add: T_def)
qed

lemma findall_run_more:
  "more_ok ms \<Longrightarrow> findall_loop key_re False (run_more ms) = map (strip \<circ> snd \<circ> snd) ms"
proof (induction ms)
  case Nil
  show ?case by (simp add: findall_nil)
next
  case (Cons m ms)
  obtain w1 w2 k where m: "m = (w1, w2, k)"
    by (cases m)
  from Cons.prems m have ok: "list_all is_space w1" "list_all is_space w2" "is_ident k" "more_ok ms"
    by (simp_all add: more_ok_def)
  from ok(1,2) have "\<forall>c \<in> set (w1 @ '','' @ w2). c \<noteq> CHR ''<''"
    by (auto simp: list_all_iff)
  from findall_skip [OF this, of "marker k @ run_more ms"]
  have "findall_loop key_re False (run_more (m # ms)) = findall_loop key_re False (marker k @ run_more ms)"
    by (simp add: m)
  with findall_marker [OF ok(3)] Cons.IH [OF ok(4)] m show ?case
    by simp
qed

lemma findall_run:
  assumes "is_ident k" "more_ok ms"
  shows "re_findall key_re (citation_run k ms) = strip k # map (strip \<circ> snd \<circ> snd) ms"
  using findall_marker [OF assms(1)] findall_run_more [OF assms(2)]
  by (simp add: re_findall_def citation_run_def)

lemma collect_known:
  "map key_to_num ks = map Some nums \<Longrightarrow>
     collect_nums key_to_num ks acc = Some (acc @ map str_nat nums)"
proof (induction ks arbitrary: nums acc)
  case Nil
  then show ?case by simp
next
  case (Cons k ks)
  then obtain n ns where "nums = n # ns" "key_to_num k = Some n" "map key_to_num ks = map Some ns"
    by (cases nums) auto
  with Cons.IH [of ns "acc @ [str_nat n]"] show ?case
    by simp
qed

lemma collect_unknown:
  "\<exists>k \<in> set ks. key_to_num k = None \<Longrightarrow> collect_nums key_to_num ks acc = None"
  by (induction ks arbitrary: acc) (auto split: option.splits)

lemma prefix_into_pre:
  assumes "prefix ''<<'' (d @ CHR ''<'' # r)" "d \<noteq> []"
  shows "prefix ''<<'' (d @ ''<'')"
proof (cases d)
  case Nil
  with assms show ?thesis by simp
next
  case (Cons c cs)
  with assms show ?thesis
    by (cases cs) simp_all
qed

lemma no_start_in_pre:
  assumes "\<not> sublist ''<<'' (pre @ ''<'')" "p < length pre"
  shows "\<not> prefix ''<<'' (drop p pre @ CHR ''<'' # r)"
proof
  assume "prefix ''<<'' (drop p pre @ CHR ''<'' # r)"
  with assms(2) have "prefix ''<<'' (drop p pre @ ''<'')"
    by (intro prefix_into_pre) simp_all
  then obtain ss where "drop p pre @ ''<'' = ''<<'' @ ss"
    by (auto simp: prefix_def)
  then have "pre @ ''<'' = take p pre @ ''<<'' @ ss"
    by (metis append_assoc append_take_drop_id)
  then have "sublist ''<<'' (pre @ ''<'')"
    unfolding sublist_def by blast
  with assms(1) show False
    by simp
qed

lemma replace_citations_run:
  assumes "is_ident k" "more_ok ms"
    and "\<not> sublist ''<<'' (pre @ ''<'')"
    and "matches more_re (post, None) = []"
  shows "replace_citations (pre @ citation_run k ms @ post) key_to_num =
     pre @ repl key_to_num (citation_run k ms, Some (citation_run k ms))
     @ replace_citations post key_to_num"
proof -
  define T where "T = citation_run k ms @ post"
  have T: "T = CHR ''<'' # CHR ''<'' # k @ ''>>'' @ run_more ms @ post"
    by (simp add: T_def citation_run_def marker_def)
  have skip: "match_here citation_re False (drop p pre @ T) = None" if "p < length pre" for p
    unfolding T by (intro citation_re_no no_start_in_pre [OF assms(3) that])
  from citation_re_run [OF assms(1,2,4)]
  have m: "match_here citation_re False T = Some (post, Some (citation_run k ms))"
    by (simp add: T_def)
  have len: "length post < length T"
    by (simp add: T)
  have c: "consumed T (post, Some (citation_run k ms)) = (citation_run k ms, Some (citation_run k ms))"
    by (simp add: consumed_def T_def)
  from sub_loop_match [OF m, of "repl key_to_num"] len c
  have "sub_loop citation_re (repl key_to_num) 0 0 False T =
      repl key_to_num (citation_run k ms, Some (citation_run k ms))
      @ sub_loop citation_re (repl key_to_num) 0 0 False post"
    by simp
  with sub_loop_skip [of pre citation_re T "repl key_to_num" 0, OF skip]
  show ?thesis
    by (simp add: replace_citations_def re_sub_def T_def)
qed

text \<open>
  C1. Take a body that holds a citation run: markers \<^verbatim>\<open><<k>>\<close> separated only by commas
  and optional whitespace, maximal (the text after it does not go on with a comma and a
  further marker), with no \<^verbatim>\<open><<\<close> starting in the text before it. The identifier of a
  marker is its content without the whitespace around it. When every identifier of the
  run is in the mapping, the transformer replaces the whole run by one bracket that
  lists the numbers of the identifiers, in the order of the run, separated by a comma
  and a space; the text before the run is kept and the text after it is rewritten in
  the same way.
\<close>

theorem known_run_replaced:
  assumes "is_ident k" "more_ok ms"
    and "map key_to_num (strip k # map (strip \<circ> snd \<circ> snd) ms) = map Some nums"
    and "\<not> sublist ''<<'' (pre @ ''<'')"
    and "matches more_re (post, None) = []"
  shows "replace_citations (pre @ citation_run k ms @ post) key_to_num =
     pre @ ''['' @ join '', '' (map str_nat nums) @ '']'' @ replace_citations post key_to_num"
proof -
  from assms(3) have "collect_nums key_to_num (strip k # map (strip \<circ> snd \<circ> snd) ms) [] = Some (map str_nat nums)"
    using collect_known [of key_to_num "strip k # map (strip \<circ> snd \<circ> snd) ms" nums "[]"] by simp
  then have "repl key_to_num (citation_run k ms, Some (citation_run k ms)) =
      ''['' @ join '', '' (map str_nat nums) @ '']''"
    by (simp add: repl_def group1_def findall_run [OF assms(1,2)])
  with replace_citations_run [OF assms(1,2,4,5), of key_to_num] show ?thesis
    by simp
qed

theorem known_run_replaced_witness:
  "replace_citations ''See << b >>, <<c>> and <<zzz>>.'' [''a'' \<mapsto> 1, ''b'' \<mapsto> 2, ''c'' \<mapsto> 3] =
     ''See [2, 3] and <<zzz>>.''"
proof -
  let ?m = "[''a'' \<mapsto> 1, ''b'' \<mapsto> 2, ''c'' \<mapsto> 3] :: string \<rightharpoonup> nat"
  have s1: "strip '' b '' = ''b''" and s2: "strip ''c'' = ''c''"
    by code_simp+
  have h1: "is_ident '' b ''"
    by (simp add: is_ident_def s1)
  have h2: "more_ok [([], '' '', ''c'')]"
    by (simp add: more_ok_def is_ident_def s2 is_space_def)
  have h3: "map ?m (strip '' b '' # map (strip \<circ> snd \<circ> snd) [([], '' '', ''c'')]) = map Some [2, 3]"
    by (simp add: s1 s2)
  have h4: "\<not> sublist ''<<'' (''See '' @ ''<'')"
    by (simp add: sublist_Cons_right)
  have h5: "matches more_re ('' and <<zzz>>.'', None) = []"
    by code_simp
  have p: "replace_citations '' and <<zzz>>.'' ?m = '' and <<zzz>>.''"
    by code_simp
  have n: "map str_nat [2, 3] = [''2'', ''3'']"
    by code_simp
  from known_run_replaced [OF h1 h2 h3 h4 h5] p n show ?thesis
    by (simp add: citation_run_def marker_def)
qed

text \<open>
  C3. For the same kind of run, when at least one identifier of the run is not in the
  mapping, the transformer leaves the whole run as it is: no identifier of the run is
  replaced, also not the known ones, and \<^verbatim>\<open>replace_citations\<close> returns normally (it is a
  total function, the unknown key is no error).
\<close>

theorem unknown_run_unchanged:
  assumes "is_ident k" "more_ok ms"
    and "\<exists>x \<in> set (strip k # map (strip \<circ> snd \<circ> snd) ms). key_to_num x = None"
    and "\<not> sublist ''<<'' (pre @ ''<'')"
    and "matches more_re (post, None) = []"
  shows "replace_citations (pre @ citation_run k ms @ post) key_to_num =
     pre @ citation_run k ms @ replace_citations post key_to_num"
proof -
  from assms(3) have "collect_nums key_to_num (strip k # map (strip \<circ> snd \<circ> snd) ms) [] = None"
    by (rule collect_unknown)
  then have "repl key_to_num (citation_run k ms, Some (citation_run k ms)) = citation_run k ms"
    by (simp add: repl_def group1_def findall_run [OF assms(1,2)])
  with replace_citations_run [OF assms(1,2,4,5), of key_to_num] show ?thesis
    by simp
qed

theorem unknown_run_unchanged_witness:
  "replace_citations ''As in <<a>>, <<zzz>>.'' [''a'' \<mapsto> 1, ''b'' \<mapsto> 2, ''c'' \<mapsto> 3] =
     ''As in <<a>>, <<zzz>>.''"
proof -
  let ?m = "[''a'' \<mapsto> 1, ''b'' \<mapsto> 2, ''c'' \<mapsto> 3] :: string \<rightharpoonup> nat"
  have s1: "strip ''a'' = ''a''" and s2: "strip ''zzz'' = ''zzz''"
    by code_simp+
  have h1: "is_ident ''a''"
    by (simp add: is_ident_def s1)
  have h2: "more_ok [([], '' '', ''zzz'')]"
    by (simp add: more_ok_def is_ident_def s2 is_space_def)
  have h3: "\<exists>x \<in> set (strip ''a'' # map (strip \<circ> snd \<circ> snd) [([], '' '', ''zzz'')]). ?m x = None"
    by (simp add: s1 s2)
  have h4: "\<not> sublist ''<<'' (''As in '' @ ''<'')"
    by (simp add: sublist_Cons_right)
  have h5: "matches more_re (''.'', None) = []"
    by code_simp
  have p: "replace_citations ''.'' ?m = ''.''"
    by code_simp
  have e: "''As in '' @ citation_run ''a'' [([], '' '', ''zzz'')] @ ''.'' = ''As in <<a>>, <<zzz>>.''"
    by (simp add: citation_run_def marker_def)
  from unknown_run_unchanged [OF h1 h2 h3 h4 h5] show ?thesis
    unfolding p e .
qed

section \<open>Escaped citation macros\<close>

lemma esc_space_no: "\<not> prefix token u \<Longrightarrow> match_here escaped_space_re adv u = None"
  by (simp add: match_here_def escaped_space_re_def matches_Seq_Str)







lemma backoff_close:
  "concat (map (\<lambda>t. if prefix [bs, CHR ''}''] t then [H t] else [])
       (backoff (\<lambda>c. c \<noteq> CHR ''}'') v)) =
     (if takeWhile (\<lambda>c. c \<noteq> CHR ''}'') v \<noteq> []
         \<and> last (takeWhile (\<lambda>c. c \<noteq> CHR ''}'') v) = bs
         \<and> dropWhile (\<lambda>c. c \<noteq> CHR ''}'') v \<noteq> []
      then [H (bs # dropWhile (\<lambda>c. c \<noteq> CHR ''}'') v)] else [])"
proof (induction v)
  case Nil
  show ?case by simp
next
  case (Cons x xs)
  show ?case
  proof (cases "x = CHR ''}''")
    case True
    then show ?thesis by simp
  next
    case False
    show ?thesis
    proof (cases xs)
      case Nil
      with False show ?thesis by simp
    next
      case (Cons y ys)
      show ?thesis
      proof (cases "y = CHR ''}''")
        case True
        with False Cons Cons.IH show ?thesis
          by simp
      next
        case False
        with \<open>x \<noteq> CHR ''}''\<close> Cons Cons.IH show ?thesis
          by simp
      qed
    qed
  qed
qed

lemma cleanup_re_matches:
  "matches cleanup_re (u, g) =
     (if prefix (bs # ''cite{'') u
         \<and> takeWhile (\<lambda>c. c \<noteq> CHR ''}'') (drop 6 u) \<noteq> []
         \<and> last (takeWhile (\<lambda>c. c \<noteq> CHR ''}'') (drop 6 u)) = bs
         \<and> dropWhile (\<lambda>c. c \<noteq> CHR ''}'') (drop 6 u) \<noteq> []
      then [(tl (dropWhile (\<lambda>c. c \<noteq> CHR ''}'') (drop 6 u)),
             Some (butlast (takeWhile (\<lambda>c. c \<noteq> CHR ''}'') (drop 6 u))))]
      else [])"
proof (cases "prefix (bs # ''cite{'') u")
  case False
  then show ?thesis
    by (simp add: cleanup_re_def matches_Seq_Str)
next
  case True
  let ?ok = "\<lambda>c. c \<noteq> CHR ''}''"
  define v where "v = drop 6 u"
  define tw where "tw = takeWhile ?ok v"
  define dw where "dw = dropWhile ?ok v"
  define H where "H t = (drop (length [bs, CHR ''}'']) t, Some (take (length v - length t) v))"
    for t :: string
  have cls: "\<And>s. matches (NoneOf [Chr CHR ''}'']) s = step1 ?ok s"
    by (simp add: not_close_class)
  have "matches cleanup_re (u, g) = matches (Seq (Group (Star (NoneOf [Chr CHR ''}'']))) (Str [bs, CHR ''}''])) (v, g)"
    using True by (simp add: cleanup_re_def matches_Seq_Str v_def eval_nat_numeral)
  also have "\<dots> = concat (map (\<lambda>t. if prefix [bs, CHR ''}''] t then [H t] else []) (backoff ?ok v))"
    by (simp add: matches_Seq matches_Star_class [OF cls] comp_def matches_Str H_def cong: if_cong)
  also have "\<dots> = (if tw \<noteq> [] \<and> last tw = bs \<and> dw \<noteq> [] then [H (bs # dw)] else [])"
    unfolding tw_def dw_def by (rule backoff_close)
  also have "\<dots> = (if tw \<noteq> [] \<and> last tw = bs \<and> dw \<noteq> [] then [(tl dw, Some (butlast tw))] else [])"
  proof (cases "tw \<noteq> [] \<and> last tw = bs \<and> dw \<noteq> []")
    case False
    then show ?thesis by auto
  next
    case True
    have v: "v = tw @ dw"
      by (simp add: tw_def dw_def)
    from True have "length v - length (bs # dw) = length tw - 1"
      by (simp add: v)
    moreover from True have "take (length tw - 1) v = butlast tw"
      by (simp add: v butlast_conv_take)
    ultimately have "H (bs # dw) = (tl dw, Some (butlast tw))"
      by (simp add: H_def drop_Suc)
    with True show ?thesis by simp
  qed
  finally show ?thesis
    using True by (simp add: v_def tw_def dw_def)
qed

lemma sub_loop_nil: "match_here r False [] = None \<Longrightarrow> sub_loop r f 0 n False [] = []"
  by (simp add: sub_loop.simps [of r f 0 n False "[]"])

lemma sub_loop_identity:
  assumes "\<And>p. p \<le> length t \<Longrightarrow> match_here r False (drop p t) = None"
  shows "sub_loop r f 0 n False t = t"
proof -
  have "\<And>p. p < length t \<Longrightarrow> match_here r False (drop p t @ []) = None"
    using assms by simp
  from sub_loop_skip [of t r "[]" f n, OF this] assms [of "length t"] show ?thesis
    by (simp add: sub_loop_nil)
qed






















section \<open>Documents the fixer leaves alone\<close>

lemma esc_space_needs:
  assumes "\<not> (prefix token u \<and> cite_follows (drop (length token) u))"
  shows "match_here escaped_space_re adv u = None"
proof (cases "prefix token u")
  case False
  then show ?thesis by (rule esc_space_no)
next
  case True
  define v where "v = drop (length token) u"
  have one: "\<And>s. matches (One Space) s = step1 is_space s"
    by (simp add: space_class)
  have r2: "\<And>x xs g. is_space x \<Longrightarrow> matches (Seq (Str ''cite'') cite_arg_re) (x # xs, g) = []"
    by (auto simp: matches_Seq_Str is_space_def)
  from assms True have nf: "\<not> (takeWhile is_space v \<noteq> [] \<and> prefix ''cite'' (dropWhile is_space v))"
    by (simp add: cite_follows_def v_def)
  have "matches escaped_space_re (u, None) =
      matches (Seq (Plus (One Space)) (Seq (Str ''cite'') cite_arg_re)) (v, None)"
    using True by (simp add: escaped_space_re_def matches_Seq_Str v_def)
  also have "\<dots> = []"
    using nf by (auto simp: matches_Seq_Plus_class [OF one r2] matches_Seq_Str)
  finally show ?thesis
    by (simp add: match_here_def)
qed

lemma esc_bs_needs:
  assumes "\<not> (prefix token u \<and> cite_follows (drop (length token) u))"
  shows "match_here escaped_bs_re adv u = None"
proof -
  have "\<not> prefix (token @ bs # ''cite'') u"
  proof
    assume "prefix (token @ bs # ''cite'') u"
    then obtain r where "u = token @ bs # ''cite'' @ r"
      by (auto simp: prefix_def)
    then have "prefix token u \<and> cite_follows (drop (length token) u)"
      by (simp add: cite_follows_def)
    with assms show False ..
  qed
  then show ?thesis
    by (simp add: match_here_def escaped_bs_re_def matches_Seq_Str)
qed

lemma cleanup_needs_stray: "\<not> stray_at u \<Longrightarrow> match_here cleanup_re adv u = None"
  by (simp add: match_here_def cleanup_re_matches stray_at_def)

lemma escape_free_at:
  "escape_free t \<Longrightarrow> \<not> (prefix token (drop p t) \<and> cite_follows (drop (length token) (drop p t)))"
proof (induction t arbitrary: p)
  case Nil
  show ?case by simp
next
  case (Cons c cs)
  show ?case
  proof (cases p)
    case 0
    with Cons.prems show ?thesis by simp
  next
    case (Suc q)
    with Cons.prems Cons.IH [of q] show ?thesis by simp
  qed
qed

lemma stray_free_at: "stray_free t \<Longrightarrow> \<not> stray_at (drop p t)"
proof (induction t arbitrary: p)
  case Nil
  show ?case by (simp add: stray_at_def)
next
  case (Cons c cs)
  show ?case
  proof (cases p)
    case 0
    with Cons.prems show ?thesis by simp
  next
    case (Suc q)
    with Cons.prems Cons.IH [of q] show ?thesis by simp
  qed
qed

lemma fixed_text_passes:
  "fixed_text t =
     sub_loop cleanup_re cite_template 0 0 False
       (sub_loop escaped_bs_re cite_template 0 0 False
          (sub_loop escaped_space_re cite_template 0 0 False t))"
  by (simp add: fixed_text_def re_sub_def)

lemma fixed_text_clean:
  assumes "escape_free t" "stray_free t"
  shows "fixed_text t = t"
proof -
  have 1: "sub_loop escaped_space_re cite_template 0 0 False t = t"
    by (rule sub_loop_identity, rule esc_space_needs, rule escape_free_at [OF assms(1)])
  have 2: "sub_loop escaped_bs_re cite_template 0 0 False t = t"
    by (rule sub_loop_identity, rule esc_bs_needs, rule escape_free_at [OF assms(1)])
  have 3: "sub_loop cleanup_re cite_template 0 0 False t = t"
    by (rule sub_loop_identity, rule cleanup_needs_stray, rule stray_free_at [OF assms(2)])
  show ?thesis
    unfolding fixed_text_passes 1 2 3 ..
qed

lemma fix_cites_file:
  "files w path = Some stored \<Longrightarrow>
   fix_cites_main [prog, path] w =
     (Returned, w\<lparr>files := (files w)(path \<mapsto> fixed_text (universal_newlines stored)),
                   io_log := io_log w @ [Read_file path, Write_file path]\<rparr>)"
  by (simp add: fix_cites_main_def read_file_def write_file_def)

text \<open>
  C5. The claim is that a document without an escaped citation macro is written back
  as it was read. The document \<^verbatim>\<open>\cite{a\}\<close> holds no \<^verbatim>\<open>\textbackslash\<close> at all, and the
  cleanup pass of the fixer still removes the backslash before its closing brace.
\<close>

theorem cleanup_changes_plain_cite:
  "re_search escaped_space_re (bs # ''cite{a'' @ bs # ''}'') = None
   \<and> re_search escaped_bs_re (bs # ''cite{a'' @ bs # ''}'') = None
   \<and> \<not> sublist (bs # ''textbackslash'') (bs # ''cite{a'' @ bs # ''}'')
   \<and> fixed_text (bs # ''cite{a'' @ bs # ''}'') = bs # ''cite{a}''
   \<and> fixed_text (bs # ''cite{a'' @ bs # ''}'') \<noteq> bs # ''cite{a'' @ bs # ''}''"
  by code_simp

text \<open>
  C5, amended. Take a file whose content holds no carriage return, in which the escape
  token \<^verbatim>\<open>\textbackslash\<close> is nowhere followed by whitespace and \<^verbatim>\<open>cite\<close> or by \<^verbatim>\<open>\cite\<close>,
  and in which no \<^verbatim>\<open>\cite{\<close> has a backslash right before the first closing brace after
  it. The fixer returns normally and writes back the content it found: the world after
  the run differs from the world before it by the two entries of the log only. (A file
  with \<^verbatim>\<open>\r\n\<close> or \<^verbatim>\<open>\r\<close> is read with \<^verbatim>\<open>\n\<close> in their place and written back so.)
\<close>

theorem fixed_text_unchanged:
  assumes "files w path = Some stored"
    and "CHR 0x0D \<notin> set stored"
    and "escape_free stored"
    and "stray_free stored"
  shows "fix_cites_main [prog, path] w =
      (Returned, w\<lparr>io_log := io_log w @ [Read_file path, Write_file path]\<rparr>)
    \<and> files (snd (fix_cites_main [prog, path] w)) path = Some stored"
proof -
  from assms(2) have n: "universal_newlines stored = stored"
    by (rule universal_newlines_id)
  from assms(3,4) have f: "fixed_text stored = stored"
    by (rule fixed_text_clean)
  from assms(1) have "(files w)(path \<mapsto> stored) = files w"
    by (rule map_upd_triv)
  with fix_cites_file [OF assms(1), of prog] assms(1) show ?thesis
    by (simp add: n f)
qed

theorem fixed_text_unchanged_witness:
  "fix_cites_main [''fix_cites.py'', ''f.tex'']
        \<lparr>files = [''f.tex'' \<mapsto> ''A'' @ bs # ''textbackslash B, see '' @ bs # ''cite{a} and {b'' @ bs # ''}.\<newline>''],
         stdin = [], stdout = [], stderr = [], io_log = []\<rparr> =
       (Returned,
        \<lparr>files = [''f.tex'' \<mapsto> ''A'' @ bs # ''textbackslash B, see '' @ bs # ''cite{a} and {b'' @ bs # ''}.\<newline>''],
         stdin = [], stdout = [], stderr = [],
         io_log = [Read_file ''f.tex'', Write_file ''f.tex'']\<rparr>)"
proof -
  let ?t = "''A'' @ bs # ''textbackslash B, see '' @ bs # ''cite{a} and {b'' @ bs # ''}.\<newline>''"
  let ?w = "\<lparr>files = [''f.tex'' \<mapsto> ?t], stdin = [], stdout = [], stderr = [], io_log = []\<rparr>"
  have h1: "files ?w ''f.tex'' = Some ?t"
    by simp
  have h2: "CHR 0x0D \<notin> set ?t"
    by simp
  have h3: "escape_free ?t"
    by code_simp
  have h4: "stray_free ?t"
    by code_simp
  from fixed_text_unchanged [OF h1 h2 h3 h4, of "''fix_cites.py''"] show ?thesis
    by simp
qed

section \<open>Escaped macros rewritten\<close>





end
